theory Spec2Isabelle
  imports Main "HOL-Library.Word" "HOL-Library.Multiset"
begin

section \<open>PassShare: one-shot secrets, rate limiting, password synthesis, envelope framing\<close>

text \<open>
  The repository keeps several snapshots of some files. The development embeds the newest
  snapshot of each, the one whose parts call each other with matching signatures:
  \<^item> \<^verbatim>\<open>src/lib/kv.ts\<close> lines 1-132 (\<^verbatim>\<open>checkRateLimit\<close> with the endpoint type),
  \<^item> \<^verbatim>\<open>src/app/api/retrieve/[id]/route.ts\<close> lines 205-295 (the handler that calls it
    with \<^verbatim>\<open>'retrieve'\<close>),
  \<^item> \<^verbatim>\<open>src/unnamed/part_003\<close> lines 1-40 (the schemas that export
    \<^verbatim>\<open>MAX_PLAINTEXT_LENGTH\<close>, which the newest form component imports),
  \<^item> \<^verbatim>\<open>src/lib/password-generator.ts\<close> and \<^verbatim>\<open>src/unnamed/part_001\<close> (the crypto
    helpers).
\<close>

subsection \<open>JavaScript values the store holds and returns\<close>

text \<open>
  \<^verbatim>\<open>interface StoredSecret { encryptedData: string; createdAt: number }\<close>
\<close>

record StoredSecret =
  encryptedData :: string
  createdAt :: int

text \<open>
  The values that travel between the handlers and the key-value store. A string is kept
  by what \<^verbatim>\<open>JSON.parse\<close> makes of it: \<open>JsonText v\<close> is the JSON text of the value
  \<open>v\<close> (what \<^verbatim>\<open>JSON.stringify(v)\<close> returns), \<open>PlainText s\<close> is a string \<open>s\<close>
  that is not JSON text, on which \<^verbatim>\<open>JSON.parse\<close> raises a SyntaxError. The empty
  string is \<open>PlainText []\<close>.
\<close>

datatype js_value = JNull | JNum int | JObj StoredSecret | JStr js_string
  and js_string = JsonText js_value | PlainText string

datatype js_error = TransportError | TimeoutError | CommandError | SyntaxError

fun JSON_parse :: "js_string \<Rightarrow> js_error + js_value" where
  "JSON_parse (JsonText v) = Inr v"
| "JSON_parse (PlainText s) = Inl SyntaxError"

definition JSON_stringify :: "js_value \<Rightarrow> js_string" where
  "JSON_stringify v = JsonText v"

text \<open>JavaScript's \<^verbatim>\<open>!x\<close>: null, the number 0 and the empty string are falsy.\<close>

fun falsy :: "js_value \<Rightarrow> bool" where
  "falsy JNull = True"
| "falsy (JNum n) = (n = 0)"
| "falsy (JObj s) = False"
| "falsy (JStr (PlainText s)) = (s = [])"
| "falsy (JStr (JsonText v)) = False"

subsection \<open>The key-value store (the external Redis behind \<^verbatim>\<open>@vercel/kv\<close>)\<close>

text \<open>
  The store is the only shared state. Every command is one atomic step on it. An entry
  carries its value and the time (milliseconds) at which it expires, if any; an expired
  entry is as good as absent (\<open>live\<close>).

  The environment is part of the state: \<open>plan\<close> says, for each coming command, how much
  time passes before it runs and whether the call fails. \<open>Refused\<close> is a transport error
  (the command never ran), \<open>Lost\<close> a timeout (the command ran, the reply never came).
  \<open>raised\<close> counts the errors the client has raised to its caller so far.
\<close>

record kv_entry =
  val :: js_value
  expires :: "nat option"

datatype fault = NoFault | Refused | Lost

record kv_store =
  clock :: nat
  entries :: "string \<Rightarrow> kv_entry option"
  plan :: "(nat \<times> fault) list"
  raised :: nat

definition live :: "kv_store \<Rightarrow> string \<Rightarrow> kv_entry option" where
  "live w k =
     (case entries w k of
        None \<Rightarrow> None
      | Some e \<Rightarrow>
          (case expires e of
             None \<Rightarrow> Some e
           | Some t \<Rightarrow> if t \<le> clock w then None else Some e))"

definition redis_get :: "string \<Rightarrow> kv_store \<Rightarrow> (js_error + js_value) \<times> kv_store" where
  "redis_get k w = (case live w k of None \<Rightarrow> (Inr JNull, w) | Some e \<Rightarrow> (Inr (val e), w))"

definition redis_getdel :: "string \<Rightarrow> kv_store \<Rightarrow> (js_error + js_value) \<times> kv_store" where
  "redis_getdel k w =
     (case live w k of
        None \<Rightarrow> (Inr JNull, w\<lparr>entries := (entries w)(k := None)\<rparr>)
      | Some e \<Rightarrow> (Inr (val e), w\<lparr>entries := (entries w)(k := None)\<rparr>))"

definition redis_setex :: "string \<Rightarrow> int \<Rightarrow> js_value \<Rightarrow> kv_store \<Rightarrow> (js_error + unit) \<times> kv_store" where
  "redis_setex k seconds v w =
     (if seconds \<le> 0 then (Inl CommandError, w)
      else (Inr (),
            w\<lparr>entries := (entries w)
                 (k \<mapsto> \<lparr>val = v, expires = Some (clock w + nat seconds * 1000)\<rparr>)\<rparr>))"

definition redis_incr :: "string \<Rightarrow> kv_store \<Rightarrow> (js_error + int) \<times> kv_store" where
  "redis_incr k w =
     (case live w k of
        None \<Rightarrow> (Inr 1, w\<lparr>entries := (entries w)(k \<mapsto> \<lparr>val = JNum 1, expires = None\<rparr>)\<rparr>)
      | Some e \<Rightarrow>
          (case val e of
             JNum n \<Rightarrow>
               if n \<ge> 2 ^ 63 - 1 then (Inl CommandError, w)
               else (Inr (n + 1), w\<lparr>entries := (entries w)(k \<mapsto> e\<lparr>val := JNum (n + 1)\<rparr>)\<rparr>)
           | _ \<Rightarrow> (Inl CommandError, w)))"

definition redis_expire :: "string \<Rightarrow> int \<Rightarrow> kv_store \<Rightarrow> (js_error + int) \<times> kv_store" where
  "redis_expire k seconds w =
     (case live w k of
        None \<Rightarrow> (Inr 0, w)
      | Some e \<Rightarrow>
          if seconds \<le> 0 then (Inr 1, w\<lparr>entries := (entries w)(k := None)\<rparr>)
          else (Inr 1,
                w\<lparr>entries := (entries w)
                     (k \<mapsto> e\<lparr>expires := Some (clock w + nat seconds * 1000)\<rparr>)\<rparr>))"

definition redis_ttl :: "string \<Rightarrow> kv_store \<Rightarrow> (js_error + int) \<times> kv_store" where
  "redis_ttl k w =
     (case live w k of
        None \<Rightarrow> (Inr (- 2), w)
      | Some e \<Rightarrow>
          (case expires e of
             None \<Rightarrow> (Inr (- 1), w)
           | Some t \<Rightarrow> (Inr (int ((t - clock w + 500) div 1000)), w)))"

text \<open>One call of the client: the planned delay passes, then the planned fault decides.\<close>

definition count_error :: "(js_error + 'a) \<times> kv_store \<Rightarrow> (js_error + 'a) \<times> kv_store" where
  "count_error rw =
     (case fst rw of
        Inl e \<Rightarrow> (Inl e, (snd rw)\<lparr>raised := raised (snd rw) + 1\<rparr>)
      | Inr v \<Rightarrow> (Inr v, snd rw))"

definition kv_call ::
  "(kv_store \<Rightarrow> (js_error + 'a) \<times> kv_store) \<Rightarrow> kv_store \<Rightarrow> (js_error + 'a) \<times> kv_store" where
  "kv_call cmd w =
     (case plan w of
        [] \<Rightarrow> count_error (cmd w)
      | df # rest \<Rightarrow>
          (let w0 = w\<lparr>clock := clock w + fst df, plan := rest\<rparr> in
           case snd df of
             NoFault \<Rightarrow> count_error (cmd w0)
           | Refused \<Rightarrow> (Inl TransportError, w0\<lparr>raised := raised w0 + 1\<rparr>)
           | Lost \<Rightarrow> (Inl TimeoutError, (snd (cmd w0))\<lparr>raised := raised (snd (cmd w0)) + 1\<rparr>)))"

subsection \<open>\<^verbatim>\<open>src/lib/kv.ts\<close>: the secret store\<close>

definition SECRET_TTL :: int where
  "SECRET_TTL = 24 * 60 * 60"

definition secret_key :: "string \<Rightarrow> string" where
  "secret_key secretId = ''secret:'' @ secretId"

text \<open>
  \<^verbatim>\<open>storeSecret\<close>. The identifier \<^verbatim>\<open>nanoid(21)\<close> draws is the argument \<open>secretId\<close>;
  \<^verbatim>\<open>Date.now()\<close> reads the clock. An error of \<^verbatim>\<open>kv.setex\<close> propagates (\<open>Inl\<close>).
\<close>

definition storeSecret :: "string \<Rightarrow> string \<Rightarrow> kv_store \<Rightarrow> (js_error + string) \<times> kv_store" where
  "storeSecret secretId encData w =
     (let key = secret_key secretId;
          secretData = \<lparr>encryptedData = encData, createdAt = int (clock w)\<rparr>
      in case kv_call (redis_setex key SECRET_TTL (JStr (JSON_stringify (JObj secretData)))) w of
           (Inl e, w1) \<Rightarrow> (Inl e, w1)
         | (Inr u, w1) \<Rightarrow> (Inr secretId, w1))"

text \<open>
  \<^verbatim>\<open>retrieveAndDeleteSecret\<close> (lines 41-67): one \<^verbatim>\<open>kv.getdel\<close>; a falsy reply is
  \<^verbatim>\<open>null\<close>; a string reply is parsed; the \<^verbatim>\<open>catch\<close> turns every error (of the store
  or of \<^verbatim>\<open>JSON.parse\<close>) into \<^verbatim>\<open>null\<close>. The result \<open>JNull\<close> is "absent".
\<close>

definition retrieveAndDeleteSecret :: "string \<Rightarrow> kv_store \<Rightarrow> js_value \<times> kv_store" where
  "retrieveAndDeleteSecret secretId w =
     (let key = secret_key secretId in
      case kv_call (redis_getdel key) w of
        (Inl e, w1) \<Rightarrow> (JNull, w1)
      | (Inr secretData, w1) \<Rightarrow>
          if falsy secretData then (JNull, w1)
          else (case secretData of
                  JStr s \<Rightarrow>
                    (case JSON_parse s of
                       Inl e \<Rightarrow> (JNull, w1)
                     | Inr parsed \<Rightarrow> (parsed, w1))
                | other \<Rightarrow> (other, w1)))"

subsection \<open>\<^verbatim>\<open>src/lib/kv.ts\<close>: the rate limiter\<close>

datatype RateLimitType = Share | Retrieve

fun type_name :: "RateLimitType \<Rightarrow> string" where
  "type_name Share = ''share''"
| "type_name Retrieve = ''retrieve''"

definition rate_key :: "RateLimitType \<Rightarrow> string \<Rightarrow> string" where
  "rate_key ty identifier = ''rate_limit:'' @ type_name ty @ '':'' @ identifier"

record RateLimitResult =
  allowed :: bool
  remaining :: int
  resetTime :: int

text \<open>
  \<^verbatim>\<open>checkRateLimit\<close> (lines 82-132). \<open>limit\<close> and \<open>window\<close> are integers. Every
  \<^verbatim>\<open>await\<close> on the store may raise; the \<^verbatim>\<open>catch\<close> answers \<open>denied\<close>.
\<close>

definition denied :: "int \<Rightarrow> int \<Rightarrow> RateLimitResult" where
  "denied now window = \<lparr>allowed = False, remaining = 0, resetTime = now + window * 1000\<rparr>"

definition checkRateLimit ::
  "string \<Rightarrow> RateLimitType \<Rightarrow> int \<Rightarrow> int \<Rightarrow> kv_store \<Rightarrow> RateLimitResult \<times> kv_store" where
  "checkRateLimit identifier ty limit window w =
     (let key = rate_key ty identifier;
          now = int (clock w)
      in case kv_call (redis_incr key) w of
           (Inl e, w1) \<Rightarrow> (denied now window, w1)
         | (Inr current, w1) \<Rightarrow>
             (case (if current = 1 then kv_call (redis_expire key window) w1 else (Inr 0, w1)) of
                (Inl e, w2) \<Rightarrow> (denied now window, w2)
              | (Inr u, w2) \<Rightarrow>
                  if current > limit then
                    (case kv_call (redis_ttl key) w2 of
                       (Inl e, w3) \<Rightarrow> (denied now window, w3)
                     | (Inr ttl, w3) \<Rightarrow>
                         (\<lparr>allowed = False, remaining = 0,
                           resetTime = now + max ttl 0 * 1000\<rparr>, w3))
                  else
                    (case kv_call (redis_ttl key) w2 of
                       (Inl e, w3) \<Rightarrow> (denied now window, w3)
                     | (Inr ttl, w3) \<Rightarrow>
                         (\<lparr>allowed = True, remaining = max 0 (limit - current),
                           resetTime = now + max ttl window * 1000\<rparr>, w3))))"

subsection \<open>Runs of the secret store\<close>

text \<open>
  What the callers of the store can do, in any interleaving: take a secret, put one under
  an identifier, let time pass. \<open>successes i evs w\<close> counts the takes of \<open>i\<close> that
  return a record (not \<open>JNull\<close>) while \<open>evs\<close> runs from \<open>w\<close>; \<open>puts i evs\<close>
  counts the writes under \<open>i\<close>.
\<close>

datatype event = Take string | Put string string | Wait nat

fun step :: "event \<Rightarrow> kv_store \<Rightarrow> js_value \<times> kv_store" where
  "step (Take i) w = retrieveAndDeleteSecret i w"
| "step (Put i d) w = (JNull, snd (storeSecret i d w))"
| "step (Wait n) w = (JNull, w\<lparr>clock := clock w + n\<rparr>)"

fun run :: "event list \<Rightarrow> kv_store \<Rightarrow> kv_store" where
  "run [] w = w"
| "run (e # es) w = run es (snd (step e w))"

fun successes :: "string \<Rightarrow> event list \<Rightarrow> kv_store \<Rightarrow> nat" where
  "successes i [] w = 0"
| "successes i (e # es) w =
     (if e = Take i \<and> fst (step e w) \<noteq> JNull then 1 else 0) + successes i es (snd (step e w))"

fun is_put :: "string \<Rightarrow> event \<Rightarrow> bool" where
  "is_put i (Put j d) = (j = i)"
| "is_put i e = False"

definition puts :: "string \<Rightarrow> event list \<Rightarrow> nat" where
  "puts i evs = length (filter (is_put i) evs)"

subsection \<open>\<^verbatim>\<open>src/unnamed/part_003\<close>: the identifier schema\<close>

text \<open>
  \<^verbatim>\<open>z.string().length(21, ...).regex(/^[A-Za-z0-9_-]+$/, ...)\<close> (lines 33-36).
  \<open>id_char\<close> is the character class, by character codes; \<open>safeParse\<close> succeeds
  (\<open>Some\<close>) when both checks pass.
\<close>

definition id_char :: "char \<Rightarrow> bool" where
  "id_char c =
     (let n = (of_char c :: nat) in
      (65 \<le> n \<and> n \<le> 90) \<or> (97 \<le> n \<and> n \<le> 122) \<or> (48 \<le> n \<and> n \<le> 57)
      \<or> c = CHR ''_'' \<or> c = CHR ''-'')"

definition secretIdSchema_safeParse :: "string \<Rightarrow> string option" where
  "secretIdSchema_safeParse s =
     (if length s = 21 \<and> s \<noteq> [] \<and> list_all id_char s then Some s else None)"

subsection \<open>\<^verbatim>\<open>src/app/api/retrieve/[id]/route.ts\<close>: the retrieval handler\<close>

text \<open>
  \<^verbatim>\<open>GET\<close> (lines 214-259 of the file, the snapshot that validates first). \<open>clientIP\<close>
  is what \<^verbatim>\<open>getClientIP(request)\<close> returns, \<open>path_id\<close> the route parameter \<^verbatim>\<open>id\<close>. The response keeps the status, the JSON
  body, the three \<^verbatim>\<open>X-RateLimit-*\<close> headers (limit, remaining, reset) when they are
  sent, and whether the no-store caching headers are sent. Nothing in the body of the
  \<^verbatim>\<open>try\<close> raises in this model (both helpers catch their errors), so the
  \<^verbatim>\<open>catch\<close> with its 500 is not reached.
\<close>

datatype body =
    ErrorBody string
  | RateLimitedBody string int
  | SecretBody "string option" "int option"

record response =
  status :: nat
  body :: body
  rateLimitHeaders :: "(int \<times> int \<times> int) option"
  noStore :: bool

definition RATE_LIMIT :: int where
  "RATE_LIMIT = 20"

definition RATE_WINDOW :: int where
  "RATE_WINDOW = 60"

fun field_encryptedData :: "js_value \<Rightarrow> string option" where
  "field_encryptedData (JObj s) = Some (encryptedData s)"
| "field_encryptedData v = None"

fun field_createdAt :: "js_value \<Rightarrow> int option" where
  "field_createdAt (JObj s) = Some (createdAt s)"
| "field_createdAt v = None"

definition GET :: "string \<Rightarrow> string \<Rightarrow> kv_store \<Rightarrow> response \<times> kv_store" where
  "GET clientIP path_id w =
     (case secretIdSchema_safeParse path_id of
        None \<Rightarrow>
          (\<lparr>status = 400, body = ErrorBody ''Invalid secret ID format'',
            rateLimitHeaders = None, noStore = False\<rparr>, w)
      | Some secretId \<Rightarrow>
          (case checkRateLimit clientIP Retrieve RATE_LIMIT RATE_WINDOW w of
             (rateLimit, w1) \<Rightarrow>
               (let rateLimitHeaders =
                      Some (RATE_LIMIT, remaining rateLimit, resetTime rateLimit)
                in if \<not> allowed rateLimit then
                     (\<lparr>status = 429,
                       body = RateLimitedBody ''Rate limit exceeded. Please try again later.''
                                (resetTime rateLimit),
                       rateLimitHeaders = rateLimitHeaders, noStore = False\<rparr>, w1)
                   else
                     (case retrieveAndDeleteSecret secretId w1 of
                        (secretData, w2) \<Rightarrow>
                          if falsy secretData then
                            (\<lparr>status = 404,
                              body = ErrorBody ''Secret not found or already accessed'',
                              rateLimitHeaders = rateLimitHeaders, noStore = False\<rparr>, w2)
                          else
                            (\<lparr>status = 200,
                              body = SecretBody (field_encryptedData secretData)
                                       (field_createdAt secretData),
                              rateLimitHeaders = rateLimitHeaders, noStore = True\<rparr>, w2)))))"

subsection \<open>\<^verbatim>\<open>src/lib/password-generator.ts\<close>: password synthesis\<close>

text \<open>
  \<^verbatim>\<open>interface PasswordOptions\<close>; \<open>length_opt\<close> is its field \<^verbatim>\<open>length\<close>, a natural
  number (\<^verbatim>\<open>new Array(options.length)\<close> accepts nothing else).
\<close>

record PasswordOptions =
  length_opt :: nat
  includeUppercase :: bool
  includeLowercase :: bool
  includeNumbers :: bool
  includeSymbols :: bool

definition UPPERCASE :: string where
  "UPPERCASE = ''ABCDEFGHIJKLMNOPQRSTUVWXYZ''"

definition LOWERCASE :: string where
  "LOWERCASE = ''abcdefghijklmnopqrstuvwxyz''"

definition NUMBERS :: string where
  "NUMBERS = ''0123456789''"

definition SYMBOLS :: string where
  "SYMBOLS = ''!@#$%^&*()_+-=[]{}|;:,.<>?''"

text \<open>
  The results of the generator. \<open>Throws\<close> is a raised \<^verbatim>\<open>Error\<close>. The random source
  \<^verbatim>\<open>crypto.getRandomValues\<close> is the list of the 32-bit samples it will hand out, in
  order; \<open>Pending\<close> says that the samples given were used up before the call returned
  (the \<^verbatim>\<open>do ... while\<close> loop of \<^verbatim>\<open>getUnbiasedRandomIndex\<close> was still rejecting).
\<close>

datatype gen_error = InvalidRange | NoCharacterType

datatype 'a outcome = Returns 'a | Throws gen_error | Pending

fun and_then :: "'a outcome \<Rightarrow> ('a \<Rightarrow> 'b outcome) \<Rightarrow> 'b outcome" where
  "and_then (Returns x) f = f x"
| "and_then (Throws e) f = Throws e"
| "and_then Pending f = Pending"

text \<open>\<^verbatim>\<open>getUnbiasedRandomIndex\<close> (lines 33-52); \<open>mx\<close> is its parameter \<^verbatim>\<open>max\<close>.\<close>

type_synonym samples = "32 word list"

definition threshold :: "nat \<Rightarrow> nat" where
  "threshold mx = 0x100000000 - (0x100000000 mod mx)"

fun rejection_loop :: "nat \<Rightarrow> samples \<Rightarrow> (nat \<times> samples) outcome" where
  "rejection_loop mx [] = Pending"
| "rejection_loop mx (randomValue # rest) =
     (if unat randomValue \<ge> threshold mx then rejection_loop mx rest
      else Returns (unat randomValue mod mx, rest))"

definition getUnbiasedRandomIndex :: "nat \<Rightarrow> samples \<Rightarrow> (nat \<times> samples) outcome" where
  "getUnbiasedRandomIndex mx rs =
     (if mx \<le> 0 \<or> mx > 0x100000000 then Throws InvalidRange else rejection_loop mx rs)"

text \<open>
  The index computation of the older snapshot \<^verbatim>\<open>src/unnamed/part_002\<close> (lines 44, 52,
  58, 64, 70, 77): \<^verbatim>\<open>crypto.getRandomValues(new Uint32Array(1))[0] % n\<close>.
\<close>

definition modulo_index :: "nat \<Rightarrow> samples \<Rightarrow> (nat \<times> samples) outcome" where
  "modulo_index mx rs = (case rs of [] \<Rightarrow> Pending | r # rest \<Rightarrow> Returns (unat r mod mx, rest))"

text \<open>
  JavaScript arrays of characters: an element is \<open>None\<close> where the array has a hole or
  holds \<^verbatim>\<open>undefined\<close>. Reading past the end gives \<^verbatim>\<open>undefined\<close>, writing past the
  end extends the array, and \<^verbatim>\<open>join('')\<close> prints \<open>None\<close> as the empty string.
\<close>

type_synonym js_array = "char option list"

definition js_get :: "'a list \<Rightarrow> nat \<Rightarrow> 'a option" where
  "js_get xs i = (if i < length xs then Some (xs ! i) else None)"

definition js_set :: "'a option list \<Rightarrow> nat \<Rightarrow> 'a option \<Rightarrow> 'a option list" where
  "js_set xs i v =
     (if i < length xs then xs[i := v] else xs @ replicate (i - length xs) None @ [v])"

definition js_at :: "'a option list \<Rightarrow> nat \<Rightarrow> 'a option" where
  "js_at xs i = (if i < length xs then xs ! i else None)"

definition join :: "js_array \<Rightarrow> string" where
  "join xs = concat (map (\<lambda>x. case x of None \<Rightarrow> [] | Some c \<Rightarrow> [c]) xs)"

text \<open>
  \<^verbatim>\<open>generateSecurePassword\<close> (lines 54-104), with the index function as a parameter
  \<open>draw\<close>: the first loop (\<open>fill\<close>), the four coverage blocks (\<open>cover\<close>, on the
  array, the position and the remaining samples), the Fisher-Yates loop (\<open>shuffle\<close>, from
  \<open>i = length - 1\<close> down to 1). The newest snapshot draws with
  \<^verbatim>\<open>getUnbiasedRandomIndex\<close>, the older one (\<^verbatim>\<open>src/unnamed/part_002\<close>, lines 26-82)
  with the modulo of one sample. The result carries the samples not yet used.
\<close>

definition charset_of :: "PasswordOptions \<Rightarrow> string" where
  "charset_of options =
     (if includeUppercase options then UPPERCASE else [])
     @ (if includeLowercase options then LOWERCASE else [])
     @ (if includeNumbers options then NUMBERS else [])
     @ (if includeSymbols options then SYMBOLS else [])"

fun fill :: "(nat \<Rightarrow> samples \<Rightarrow> (nat \<times> samples) outcome) \<Rightarrow> string \<Rightarrow> nat \<Rightarrow> samples
    \<Rightarrow> (js_array \<times> samples) outcome" where
  "fill draw charset 0 rs = Returns ([], rs)"
| "fill draw charset (Suc n) rs =
     and_then (draw (length charset) rs) (\<lambda>(i, rs1).
       and_then (fill draw charset n rs1) (\<lambda>(rest, rs2).
         Returns (js_get charset i # rest, rs2)))"

definition cover :: "(nat \<Rightarrow> samples \<Rightarrow> (nat \<times> samples) outcome) \<Rightarrow> bool \<Rightarrow> string
    \<Rightarrow> js_array \<times> nat \<times> samples \<Rightarrow> (js_array \<times> nat \<times> samples) outcome" where
  "cover draw enabled cls st =
     (case st of (passwordArray, position, rs) \<Rightarrow>
        if enabled then
          and_then (draw (length cls) rs) (\<lambda>(i, rs1).
            Returns (js_set passwordArray position (js_get cls i), position + 1, rs1))
        else Returns (passwordArray, position, rs))"

definition swap :: "js_array \<Rightarrow> nat \<Rightarrow> nat \<Rightarrow> js_array" where
  "swap a i j = js_set (js_set a i (js_at a j)) j (js_at a i)"

fun shuffle :: "(nat \<Rightarrow> samples \<Rightarrow> (nat \<times> samples) outcome) \<Rightarrow> nat \<Rightarrow> js_array \<Rightarrow> samples
    \<Rightarrow> (js_array \<times> samples) outcome" where
  "shuffle draw 0 a rs = Returns (a, rs)"
| "shuffle draw (Suc i) a rs =
     and_then (draw (Suc i + 1) rs) (\<lambda>(randomIndex, rs1).
       shuffle draw i (swap a (Suc i) randomIndex) rs1)"

definition generate_with :: "(nat \<Rightarrow> samples \<Rightarrow> (nat \<times> samples) outcome) \<Rightarrow> PasswordOptions
    \<Rightarrow> samples \<Rightarrow> (string \<times> samples) outcome" where
  "generate_with draw options rs =
     (let charset = charset_of options in
      if length charset = 0 then Throws NoCharacterType
      else
        and_then (fill draw charset (length_opt options) rs) (\<lambda>(password, rs1).
        and_then (cover draw (includeUppercase options) UPPERCASE (password, 0, rs1)) (\<lambda>st1.
        and_then (cover draw (includeLowercase options) LOWERCASE st1) (\<lambda>st2.
        and_then (cover draw (includeNumbers options) NUMBERS st2) (\<lambda>st3.
        and_then (cover draw (includeSymbols options) SYMBOLS st3) (\<lambda>(passwordArray, position, rs5).
        and_then (shuffle draw (length passwordArray - 1) passwordArray rs5) (\<lambda>(shuffled, rs6).
          Returns (join shuffled, rs6))))))))"

definition generateSecurePassword :: "PasswordOptions \<Rightarrow> samples \<Rightarrow> (string \<times> samples) outcome" where
  "generateSecurePassword = generate_with getUnbiasedRandomIndex"

definition generateSecurePassword_modulo :: "PasswordOptions \<Rightarrow> samples \<Rightarrow> (string \<times> samples) outcome" where
  "generateSecurePassword_modulo = generate_with modulo_index"

subsection \<open>Password synthesis, by its description\<close>

text \<open>
  \<open>policy_ok\<close>: at least one class enabled and a length from 8 to 128. \<open>meets_policy\<close>:
  the length asked for, a character of every enabled class, none of a disabled class.
  \<open>largest_multiple n\<close> is the largest multiple of \<open>n\<close> that fits in \<open>2^32\<close>, and
  \<open>rejection_sample\<close> discards every sample at or above it and reduces the first one
  below it modulo \<open>n\<close>. A \<open>usable\<close> sample is below \<open>2^32 - 128\<close>: no draw of a bound
  up to 128 discards it.
\<close>

definition policy_ok :: "PasswordOptions \<Rightarrow> bool" where
  "policy_ok options =
     ((includeUppercase options \<or> includeLowercase options \<or> includeNumbers options
         \<or> includeSymbols options)
      \<and> 8 \<le> length_opt options \<and> length_opt options \<le> 128)"

definition meets_policy :: "PasswordOptions \<Rightarrow> string \<Rightarrow> bool" where
  "meets_policy options pw =
     (length pw = length_opt options
      \<and> (if includeUppercase options then set pw \<inter> set UPPERCASE \<noteq> {}
          else set pw \<inter> set UPPERCASE = {})
      \<and> (if includeLowercase options then set pw \<inter> set LOWERCASE \<noteq> {}
          else set pw \<inter> set LOWERCASE = {})
      \<and> (if includeNumbers options then set pw \<inter> set NUMBERS \<noteq> {}
          else set pw \<inter> set NUMBERS = {})
      \<and> (if includeSymbols options then set pw \<inter> set SYMBOLS \<noteq> {}
          else set pw \<inter> set SYMBOLS = {}))"

definition largest_multiple :: "nat \<Rightarrow> nat" where
  "largest_multiple n = (4294967296 div n) * n"

definition rejection_sample :: "nat \<Rightarrow> samples \<Rightarrow> (nat \<times> samples) outcome" where
  "rejection_sample n rs =
     (case dropWhile (\<lambda>r. unat r \<ge> largest_multiple n) rs of
        [] \<Rightarrow> Pending
      | a # rest \<Rightarrow> Returns (unat a mod n, rest))"

definition usable :: "32 word \<Rightarrow> bool" where
  "usable r = (unat r < 4294967168)"

text \<open>
  The draws of one synthesis, as the description lists them. \<open>draw_bounds\<close> gives the
  bound of every draw, in order: one draw per position, with the size of the charset; one
  per enabled class, with the size of the class; the shuffle's, with the bounds
  \<open>m, ..., 2\<close>, where \<open>m\<close> is the size of the buffer shuffled: the length asked for,
  or the number of enabled classes where the length is smaller (the coverage writes then
  extend the buffer). \<open>draw_all\<close> makes the draws of a list of bounds one after the
  other, each by \<open>rejection_sample\<close>, and returns the indices with the samples left.
  \<open>assemble\<close> builds the password from the indices alone: the characters of the charset
  at the first \<open>length\<close> indices, the characters of the enabled classes written over
  the positions \<open>0, 1, ...\<close>, and the swaps of position \<open>i\<close> with the index drawn for
  it, from \<open>i = m - 1\<close> down.
\<close>

fun draw_all :: "nat list \<Rightarrow> samples \<Rightarrow> (nat list \<times> samples) outcome" where
  "draw_all [] rs = Returns ([], rs)"
| "draw_all (n # ns) rs =
     and_then (rejection_sample n rs) (\<lambda>(i, rs1).
       and_then (draw_all ns rs1) (\<lambda>(others, rs2). Returns (i # others, rs2)))"

definition enabled_list :: "PasswordOptions \<Rightarrow> string list" where
  "enabled_list options =
     (if includeUppercase options then [UPPERCASE] else [])
     @ (if includeLowercase options then [LOWERCASE] else [])
     @ (if includeNumbers options then [NUMBERS] else [])
     @ (if includeSymbols options then [SYMBOLS] else [])"

definition shuffle_bounds :: "nat \<Rightarrow> nat list" where
  "shuffle_bounds n = rev [2 ..< n + 1]"

definition draw_bounds :: "PasswordOptions \<Rightarrow> nat list" where
  "draw_bounds options =
     replicate (length_opt options) (length (charset_of options))
     @ map length (enabled_list options)
     @ shuffle_bounds (max (length_opt options) (length (enabled_list options)))"

fun overwrite :: "js_array \<Rightarrow> nat \<Rightarrow> char option list \<Rightarrow> js_array" where
  "overwrite a pos [] = a"
| "overwrite a pos (c # cs) = overwrite (js_set a pos c) (pos + 1) cs"

fun swaps :: "js_array \<Rightarrow> nat \<Rightarrow> nat list \<Rightarrow> js_array" where
  "swaps a i [] = a"
| "swaps a i (j # js) = swaps (swap a i j) (i - 1) js"

definition build :: "PasswordOptions \<Rightarrow> nat list \<Rightarrow> nat list \<Rightarrow> nat list \<Rightarrow> string" where
  "build options per_position per_class per_swap =
     join (swaps (overwrite (map (js_get (charset_of options)) per_position) 0
                    (map (\<lambda>(cls, i). js_get cls i) (zip (enabled_list options) per_class)))
                 (max (length_opt options) (length (enabled_list options)) - 1) per_swap)"

definition assemble :: "PasswordOptions \<Rightarrow> nat list \<Rightarrow> string" where
  "assemble options indices =
     (let n = length_opt options; k = length (enabled_list options) in
      build options (take n indices) (take k (drop n indices)) (drop (n + k) indices))"

text \<open>Notions for the proofs about the generator.\<close>

definition good_draw :: "(nat \<Rightarrow> samples \<Rightarrow> (nat \<times> samples) outcome) \<Rightarrow> bool" where
  "good_draw draw =
     (\<forall>mx rs. 0 < mx \<and> mx \<le> 4294967296 \<longrightarrow>
        (case draw mx rs of Returns (i, rest) \<Rightarrow> i < mx | Throws e \<Rightarrow> False | Pending \<Rightarrow> True))"

definition covered :: "nat \<Rightarrow> string \<Rightarrow> string set \<Rightarrow> js_array \<Rightarrow> nat \<Rightarrow> bool" where
  "covered n cs S a pos =
     (length a = n \<and> set a \<subseteq> Some ` set cs \<and> pos \<le> n
      \<and> (\<forall>C \<in> S. \<exists>p < pos. \<exists>ch \<in> set C. a ! p = Some ch))"

definition enabled_classes :: "PasswordOptions \<Rightarrow> string set" where
  "enabled_classes options =
     (if includeUppercase options then {UPPERCASE} else {})
     \<union> (if includeLowercase options then {LOWERCASE} else {})
     \<union> (if includeNumbers options then {NUMBERS} else {})
     \<union> (if includeSymbols options then {SYMBOLS} else {})"

subsection \<open>\<^verbatim>\<open>src/lib/password-generator.ts\<close>: password strength\<close>

text \<open>
  \<^verbatim>\<open>calculatePasswordStrength\<close> (lines 106-189). A password is a list of characters
  (code units up to 255). The character classes are the regular expressions' ranges, by
  character code. \<^verbatim>\<open>/(.)\1{2,}/\<close> finds a character that is not a line terminator
  (the dot does not match one) followed by two more of itself; the second expression,
  with its \<^verbatim>\<open>i\<close> flag, finds three characters that, upper case letters lowered,
  spell one of the 31 listed sequences. The running \<^verbatim>\<open>score\<close> and the
  \<^verbatim>\<open>feedback\<close> array do not depend on each other and are computed by
  \<open>raw_score\<close> and \<open>feedback_list\<close>, statement by statement; \<open>label_color\<close> is the
  \<^verbatim>\<open>switch\<close>.
\<close>

record PasswordStrength =
  score :: int
  label :: string
  color :: string
  feedback :: "string list"

definition is_lower :: "char \<Rightarrow> bool" where
  "is_lower c = (97 \<le> (of_char c :: nat) \<and> (of_char c :: nat) \<le> 122)"

definition is_upper :: "char \<Rightarrow> bool" where
  "is_upper c = (65 \<le> (of_char c :: nat) \<and> (of_char c :: nat) \<le> 90)"

definition is_digit :: "char \<Rightarrow> bool" where
  "is_digit c = (48 \<le> (of_char c :: nat) \<and> (of_char c :: nat) \<le> 57)"

definition line_terminator :: "char \<Rightarrow> bool" where
  "line_terminator c = (c = CHR 0x0A \<or> c = CHR 0x0D)"

definition ignore_case :: "char \<Rightarrow> char" where
  "ignore_case c = (if is_upper c then char_of ((of_char c :: nat) + 32) else c)"

fun hasRepeatingChars :: "string \<Rightarrow> bool" where
  "hasRepeatingChars (a # b # c # rest) =
     ((\<not> line_terminator a \<and> b = a \<and> c = a) \<or> hasRepeatingChars (b # c # rest))"
| "hasRepeatingChars s = False"

definition sequences :: "string list" where
  "sequences =
     [''abc'', ''bcd'', ''cde'', ''def'', ''efg'', ''fgh'', ''ghi'', ''hij'', ''ijk'', ''jkl'',
      ''klm'', ''lmn'', ''mno'', ''nop'', ''opq'', ''pqr'', ''qrs'', ''rst'', ''stu'', ''tuv'',
      ''uvw'', ''vwx'', ''wxy'', ''xyz'',
      ''123'', ''234'', ''345'', ''456'', ''567'', ''678'', ''789'']"

fun hasSequentialChars :: "string \<Rightarrow> bool" where
  "hasSequentialChars (a # b # c # rest) =
     ([ignore_case a, ignore_case b, ignore_case c] \<in> set sequences
      \<or> hasSequentialChars (b # c # rest))"
| "hasSequentialChars s = False"

definition varietyCount :: "string \<Rightarrow> nat" where
  "varietyCount password =
     (let hasLowercase = list_ex is_lower password;
          hasUppercase = list_ex is_upper password;
          hasNumbers = list_ex is_digit password;
          hasSymbols = list_ex (\<lambda>c. \<not> (is_lower c \<or> is_upper c \<or> is_digit c)) password
      in length (filter (\<lambda>b. b) [hasLowercase, hasUppercase, hasNumbers, hasSymbols]))"

definition raw_score :: "string \<Rightarrow> int" where
  "raw_score password =
     (let score = 0;
          score = (if length password \<ge> 12 then score + 1 else score);
          score = (if length password \<ge> 16 then score + 1 else score);
          score = (if varietyCount password \<ge> 3 then score + 1 else score);
          score = (if varietyCount password = 4 then score + 1 else score);
          score = (if hasRepeatingChars password then score - 1 else score);
          score = (if hasSequentialChars password then score - 1 else score)
      in score)"

definition feedback_list :: "string \<Rightarrow> string list" where
  "feedback_list password =
     (let feedback = [];
          feedback = (if length password \<ge> 12 then feedback
                      else feedback @ [''Use at least 12 characters'']);
          feedback = (if varietyCount password \<ge> 3 then feedback
                      else feedback @ [''Include uppercase, lowercase, numbers, and symbols'']);
          feedback = (if hasRepeatingChars password
                      then feedback @ [''Avoid repeating characters''] else feedback);
          feedback = (if hasSequentialChars password
                      then feedback @ [''Avoid sequential characters''] else feedback)
      in feedback)"

definition label_color :: "int \<Rightarrow> string \<times> string" where
  "label_color sc =
     (if sc = 0 \<or> sc = 1 then (''Weak'', ''text-red-500'')
      else if sc = 2 then (''Fair'', ''text-orange-500'')
      else if sc = 3 then (''Good'', ''text-yellow-500'')
      else if sc = 4 then (''Strong'', ''text-green-500'')
      else (''Unknown'', ''text-gray-500''))"

definition calculatePasswordStrength :: "string \<Rightarrow> PasswordStrength" where
  "calculatePasswordStrength password =
     (let score = max 0 (min 4 (raw_score password));
          feedback = feedback_list password
      in \<lparr>score = score, label = fst (label_color score), color = snd (label_color score),
           feedback = (if length feedback > 0 then feedback else [''Password looks good!''])\<rparr>)"


subsection \<open>Password strength, by its description\<close>

text \<open>
  \<open>window3 P s\<close>: some three characters in a row of \<open>s\<close> satisfy \<open>P\<close>.
  \<open>same3\<close> and \<open>ascending3\<close> follow the words of the description: any character three
  times in a row; three letters, or three digits, with consecutive codes, case ignored.
  \<open>same3_visible\<close> and \<open>known_run\<close> are what the code penalises: a character other than
  a line terminator three times in a row; three consecutive letters, or three consecutive
  digits from 1 to 9, case ignored. \<open>claimed_score\<close> is the score as described,
  \<open>strength_score\<close> the score of the code.
\<close>

fun window3 :: "(char \<Rightarrow> char \<Rightarrow> char \<Rightarrow> bool) \<Rightarrow> string \<Rightarrow> bool" where
  "window3 P (a # b # c # rest) = (P a b c \<or> window3 P (b # c # rest))"
| "window3 P s = False"

definition consecutive3 :: "char \<Rightarrow> char \<Rightarrow> char \<Rightarrow> bool" where
  "consecutive3 a b c =
     ((of_char b :: nat) = of_char a + 1 \<and> (of_char c :: nat) = of_char a + 2)"

definition known_run :: "char \<Rightarrow> char \<Rightarrow> char \<Rightarrow> bool" where
  "known_run a b c =
     (consecutive3 (ignore_case a) (ignore_case b) (ignore_case c)
      \<and> ((is_lower (ignore_case a) \<and> is_lower (ignore_case c))
         \<or> (49 \<le> (of_char a :: nat) \<and> (of_char c :: nat) \<le> 57)))"

definition same3 :: "char \<Rightarrow> char \<Rightarrow> char \<Rightarrow> bool" where
  "same3 a b c = (b = a \<and> c = a)"

definition same3_visible :: "char \<Rightarrow> char \<Rightarrow> char \<Rightarrow> bool" where
  "same3_visible a b c = (\<not> line_terminator a \<and> b = a \<and> c = a)"

definition ascending3 :: "char \<Rightarrow> char \<Rightarrow> char \<Rightarrow> bool" where
  "ascending3 a b c =
     (consecutive3 (ignore_case a) (ignore_case b) (ignore_case c)
      \<and> ((is_lower (ignore_case a) \<and> is_lower (ignore_case c))
         \<or> (is_digit a \<and> is_digit c)))"

definition class_count :: "string \<Rightarrow> nat" where
  "class_count pw =
     (if list_ex is_lower pw then 1 else 0) + (if list_ex is_upper pw then 1 else 0)
     + (if list_ex is_digit pw then 1 else 0)
     + (if list_ex (\<lambda>c. \<not> is_lower c \<and> \<not> is_upper c \<and> \<not> is_digit c) pw then 1 else 0)"

definition clamp04 :: "int \<Rightarrow> int" where
  "clamp04 x = (if x < 0 then 0 else if x > 4 then 4 else x)"

definition label_of :: "int \<Rightarrow> string" where
  "label_of s =
     (if s \<le> 1 then ''Weak'' else if s = 2 then ''Fair'' else if s = 3 then ''Good''
      else ''Strong'')"

definition points :: "string \<Rightarrow> int" where
  "points pw =
     (if length pw \<ge> 12 then 1 else 0) + (if length pw \<ge> 16 then 1 else 0)
     + (if class_count pw \<ge> 3 then 1 else 0) + (if class_count pw = 4 then 1 else 0)"

definition claimed_score :: "string \<Rightarrow> int" where
  "claimed_score pw =
     clamp04 (points pw - (if window3 same3 pw then 1 else 0)
                        - (if window3 ascending3 pw then 1 else 0))"

definition strength_score :: "string \<Rightarrow> int" where
  "strength_score pw =
     clamp04 (points pw - (if window3 same3_visible pw then 1 else 0)
                        - (if window3 known_run pw then 1 else 0))"

text \<open>The identifier alphabet of the interface, \<^verbatim>\<open>[A-Za-z0-9_-]\<close>, spelled out.\<close>

definition id_alphabet :: string where
  "id_alphabet = ''ABCDEFGHIJKLMNOPQRSTUVWXYZabcdefghijklmnopqrstuvwxyz0123456789_-''"

subsection \<open>Auxiliary notions for the proofs about the store\<close>

text \<open>
  A command is framed at \<open>k\<close> when it touches no entry but the one at \<open>k\<close>, and neither
  the clock, the plan nor the error count. Two stores are the same at \<open>k\<close> when they
  agree on the clock, the plan and the entry at \<open>k\<close>; a command is stable at \<open>k\<close>
  when its reply depends on nothing else.
\<close>

definition frame_cmd :: "string \<Rightarrow> (kv_store \<Rightarrow> (js_error + 'a) \<times> kv_store) \<Rightarrow> bool" where
  "frame_cmd k cmd =
     (\<forall>w. raised (snd (cmd w)) = raised w \<and> clock (snd (cmd w)) = clock w
          \<and> plan (snd (cmd w)) = plan w
          \<and> (\<forall>k'. k' \<noteq> k \<longrightarrow> entries (snd (cmd w)) k' = entries w k'))"

definition same_at :: "string \<Rightarrow> kv_store \<Rightarrow> kv_store \<Rightarrow> bool" where
  "same_at k w u = (clock w = clock u \<and> plan w = plan u \<and> entries w k = entries u k)"

definition stable_at :: "string \<Rightarrow> (kv_store \<Rightarrow> (js_error + 'a) \<times> kv_store) \<Rightarrow> bool" where
  "stable_at k cmd =
     (\<forall>w u. same_at k w u \<longrightarrow>
        fst (cmd w) = fst (cmd u) \<and> same_at k (snd (cmd w)) (snd (cmd u)))"

subsection \<open>\<^verbatim>\<open>src/unnamed/part_001\<close>: the text encoding and the envelope framing\<close>

text \<open>
  A byte is an 8 bit word and an \<^verbatim>\<open>ArrayBuffer\<close> or \<^verbatim>\<open>Uint8Array\<close> a list of bytes.
  A string is a list of characters of 8 bits: a binary string, as \<^verbatim>\<open>btoa\<close> takes and
  \<^verbatim>\<open>atob\<close> returns, is exactly that, and so is every string \<^verbatim>\<open>base64UrlEncode\<close>
  returns. (A text with a code unit above 255 is not a value of this type; \<^verbatim>\<open>atob\<close>
  throws on it, as on every character outside its alphabet.)

  \<^verbatim>\<open>btoa\<close> and \<^verbatim>\<open>atob\<close> belong to the platform. They are written after the HTML
  standard: \<^verbatim>\<open>btoa\<close> is the base64 encoding with padding (on characters of 8 bits it does
  not throw), \<^verbatim>\<open>atob\<close> the forgiving decoding, which removes ASCII whitespace, removes
  one or two closing \<^verbatim>\<open>=\<close> from a text whose length is a multiple of four, throws
  \<^verbatim>\<open>InvalidCharacterError\<close> when the length that remains is one more than a multiple of
  four or a character is outside the alphabet, and drops the bits left over at the end.
\<close>

type_synonym byte = "8 word"

datatype dom_exception = InvalidCharacterError

definition base64_alphabet :: string where
  "base64_alphabet = ''ABCDEFGHIJKLMNOPQRSTUVWXYZabcdefghijklmnopqrstuvwxyz0123456789+/''"

definition sextet_char :: "nat \<Rightarrow> char" where
  "sextet_char i = base64_alphabet ! i"

definition char_sextet :: "char \<Rightarrow> nat" where
  "char_sextet c = length (takeWhile (\<lambda>x. x \<noteq> c) base64_alphabet)"

fun sextets_of :: "nat list \<Rightarrow> nat list" where
  "sextets_of (a # b # c # rest) =
     [a div 4, (a mod 4) * 16 + b div 16, (b mod 16) * 4 + c div 64, c mod 64] @ sextets_of rest"
| "sextets_of [a, b] = [a div 4, (a mod 4) * 16 + b div 16, (b mod 16) * 4]"
| "sextets_of [a] = [a div 4, (a mod 4) * 16]"
| "sextets_of [] = []"

fun octets_of :: "nat list \<Rightarrow> nat list" where
  "octets_of (a # b # c # d # rest) =
     [a * 4 + b div 16, (b mod 16) * 16 + c div 4, (c mod 4) * 64 + d] @ octets_of rest"
| "octets_of [a, b, c] = [a * 4 + b div 16, (b mod 16) * 16 + c div 4]"
| "octets_of [a, b] = [a * 4 + b div 16]"
| "octets_of s = []"

definition btoa :: "string \<Rightarrow> string" where
  "btoa binary =
     map sextet_char (sextets_of (map of_char binary))
     @ replicate ((3 - length binary mod 3) mod 3) CHR ''=''"

definition ascii_whitespace :: "char \<Rightarrow> bool" where
  "ascii_whitespace c =
     (c = CHR 0x09 \<or> c = CHR 0x0A \<or> c = CHR 0x0C \<or> c = CHR 0x0D \<or> c = CHR '' '')"

definition strip_padding :: "string \<Rightarrow> string" where
  "strip_padding s =
     (if length s mod 4 = 0 \<and> s \<noteq> [] then
        if last s = CHR ''='' then
          if butlast s \<noteq> [] \<and> last (butlast s) = CHR ''='' then butlast (butlast s)
          else butlast s
        else s
      else s)"

definition atob :: "string \<Rightarrow> dom_exception + string" where
  "atob encoded =
     (let d = strip_padding (filter (\<lambda>c. \<not> ascii_whitespace c) encoded) in
      if length d mod 4 = 1 then Inl InvalidCharacterError
      else if \<exists>c \<in> set d. c \<notin> set base64_alphabet then Inl InvalidCharacterError
      else Inr (map char_of (octets_of (map char_sextet d))))"

text \<open>
  \<^verbatim>\<open>base64UrlEncode\<close> (lines 7-17): the binary string of the bytes, \<^verbatim>\<open>btoa\<close>, then the
  three replacements. \<^verbatim>\<open>base64UrlDecode\<close> (lines 19-31): the padding is put back, the two
  replacements are undone, \<^verbatim>\<open>atob\<close> is called with nothing around it to catch what it
  throws, and the character codes are the bytes. The function looks at no length.
\<close>

definition base64UrlEncode :: "byte list \<Rightarrow> string" where
  "base64UrlEncode bytes =
     (let binary = map (\<lambda>b. char_of (unat b)) bytes in
      filter (\<lambda>c. c \<noteq> CHR ''='')
        (map (\<lambda>c. if c = CHR ''/'' then CHR ''_'' else c)
          (map (\<lambda>c. if c = CHR ''+'' then CHR ''-'' else c) (btoa binary))))"

definition base64UrlDecode :: "string \<Rightarrow> dom_exception + byte list" where
  "base64UrlDecode str0 =
     (let str1 = str0 @ replicate ((4 - length str0 mod 4) mod 4) CHR ''='';
          str2 = map (\<lambda>c. if c = CHR ''_'' then CHR ''/'' else c)
                   (map (\<lambda>c. if c = CHR ''-'' then CHR ''+'' else c) str1)
      in case atob str2 of
           Inl e \<Rightarrow> Inl e
         | Inr binary \<Rightarrow> Inr (map (\<lambda>c. of_nat (of_char c)) binary))"

text \<open>
  \<^verbatim>\<open>combineIvAndCiphertext\<close> (lines 112-117) and \<^verbatim>\<open>separateIvAndCiphertext\<close>
  (lines 120-128); \<^verbatim>\<open>slice\<close> clamps its bounds to the length, as \<open>take\<close> and \<open>drop\<close> do.
\<close>

definition combineIvAndCiphertext :: "byte list \<Rightarrow> byte list \<Rightarrow> byte list" where
  "combineIvAndCiphertext iv ciphertext = iv @ ciphertext"

definition separateIvAndCiphertext :: "byte list \<Rightarrow> byte list \<times> byte list" where
  "separateIvAndCiphertext combined = (take 12 combined, drop 12 combined)"

subsection \<open>The text encoding, by its description\<close>

text \<open>
  The URL-safe alphabet, \<^verbatim>\<open>[A-Za-z0-9_-]\<close>, and the two replacements of each direction
  as one function on characters.
\<close>

definition url_safe_alphabet :: string where
  "url_safe_alphabet = ''ABCDEFGHIJKLMNOPQRSTUVWXYZabcdefghijklmnopqrstuvwxyz0123456789-_''"

definition to_url :: "char \<Rightarrow> char" where
  "to_url c = (let c1 = (if c = CHR ''+'' then CHR ''-'' else c)
               in if c1 = CHR ''/'' then CHR ''_'' else c1)"

definition from_url :: "char \<Rightarrow> char" where
  "from_url c = (let c1 = (if c = CHR ''-'' then CHR ''+'' else c)
                 in if c1 = CHR ''_'' then CHR ''/'' else c1)"

section \<open>Properties\<close>


subsection \<open>Store commands: frames and error counting\<close>

lemma count_error_simps:
  "count_error (Inl e, w) = (Inl e, w\<lparr>raised := raised w + 1\<rparr>)"
  "count_error (Inr v, w) = (Inr v, w)"
  by (simp_all add: count_error_def)

lemma frame_incr: "frame_cmd k (redis_incr k)"
  by (auto simp: frame_cmd_def redis_incr_def split: option.splits js_value.splits)
lemma frame_expire: "frame_cmd k (redis_expire k s)"
  by (auto simp: frame_cmd_def redis_expire_def split: option.splits)
lemma frame_ttl: "frame_cmd k (redis_ttl k)"
  by (auto simp: frame_cmd_def redis_ttl_def split: option.splits)
lemma frame_getdel: "frame_cmd k (redis_getdel k)"
  by (auto simp: frame_cmd_def redis_getdel_def split: option.splits)
lemma frame_setex: "frame_cmd k (redis_setex k s v)"
  by (auto simp: frame_cmd_def redis_setex_def split: option.splits)

lemma kv_call_entries:
  assumes "frame_cmd k cmd" "k' \<noteq> k"
  shows "entries (snd (kv_call cmd w)) k' = entries w k'"
proof -
  have a: "\<And>u. entries (snd (cmd u)) k' = entries u k'"
    using assms by (simp add: frame_cmd_def)
  have b: "\<And>u. entries (snd (count_error (cmd u))) k' = entries u k'"
    using a by (simp add: count_error_def split: sum.splits)
  show ?thesis
    by (cases "plan w") (auto simp: kv_call_def Let_def a b split: fault.splits prod.splits)
qed

lemma kv_call_Inr_raised:
  assumes "frame_cmd k cmd" "kv_call cmd w = (Inr v, w1)"
  shows "raised w1 = raised w"
proof -
  have a: "\<And>u. raised (snd (cmd u)) = raised u"
    using assms(1) by (simp add: frame_cmd_def)
  have b: "\<And>u v u1. count_error (cmd u) = (Inr v, u1) \<Longrightarrow> raised u1 = raised u"
    using a by (auto simp: count_error_def split: sum.splits)
  show ?thesis using assms(2)
    by (cases "plan w") (auto simp: kv_call_def Let_def split: fault.splits dest!: b)
qed

lemma kv_call_Inl_raised:
  assumes "frame_cmd k cmd" "kv_call cmd w = (Inl e, w1)"
  shows "raised w1 = raised w + 1"
proof -
  have a: "\<And>u. raised (snd (cmd u)) = raised u"
    using assms(1) by (simp add: frame_cmd_def)
  have b: "\<And>u e u1. count_error (cmd u) = (Inl e, u1) \<Longrightarrow> raised u1 = raised u + 1"
    using a by (auto simp: count_error_def split: sum.splits)
  show ?thesis using assms(2)
    by (cases "plan w") (auto simp: kv_call_def Let_def a split: fault.splits dest!: b)
qed


lemma rate_key_inj: "rate_key ty i = rate_key ty' i' \<longleftrightarrow> ty = ty' \<and> i = i'"
  by (cases ty; cases ty') (auto simp: rate_key_def)

lemma check_frame:
  assumes "k \<noteq> rate_key ty identifier"
  shows "entries (snd (checkRateLimit identifier ty limit window w)) k = entries w k"
proof -
  note e = kv_call_entries[OF frame_incr assms] kv_call_entries[OF frame_expire assms]
           kv_call_entries[OF frame_ttl assms]
  show ?thesis
    by (auto simp: checkRateLimit_def Let_def split: prod.splits sum.splits if_splits)
       (metis e snd_conv)+
qed

lemma live_same: "same_at k w u \<Longrightarrow> live w k = live u k"
  by (auto simp: same_at_def live_def split: option.splits)

lemma stable_at_incr: "stable_at k (redis_incr k)"
  unfolding stable_at_def
proof (intro allI impI)
  fix w u assume s: "same_at k w u"
  note l = live_same[OF s]
  show "fst (redis_incr k w) = fst (redis_incr k u) \<and> same_at k (snd (redis_incr k w)) (snd (redis_incr k u))"
    using s by (auto simp: redis_incr_def l same_at_def split: option.splits js_value.splits)
qed

lemma stable_at_expire: "stable_at k (redis_expire k s)"
  unfolding stable_at_def
proof (intro allI impI)
  fix w u assume s: "same_at k w u"
  note l = live_same[OF s]
  show "fst (redis_expire k s w) = fst (redis_expire k s u) \<and> same_at k (snd (redis_expire k s w)) (snd (redis_expire k s u))"
    using s by (auto simp: redis_expire_def l same_at_def split: option.splits)
qed

lemma stable_at_ttl: "stable_at k (redis_ttl k)"
  unfolding stable_at_def
proof (intro allI impI)
  fix w u assume s: "same_at k w u"
  note l = live_same[OF s]
  show "fst (redis_ttl k w) = fst (redis_ttl k u) \<and> same_at k (snd (redis_ttl k w)) (snd (redis_ttl k u))"
    using s by (auto simp: redis_ttl_def l same_at_def split: option.splits)
qed

lemma same_at_raised: "same_at k w u \<Longrightarrow> same_at k (w\<lparr>raised := a\<rparr>) (u\<lparr>raised := b\<rparr>)"
  by (simp add: same_at_def)

lemma stable_at_count_error:
  assumes "stable_at k cmd" "same_at k w u"
  shows "fst (count_error (cmd w)) = fst (count_error (cmd u)) \<and>
         same_at k (snd (count_error (cmd w))) (snd (count_error (cmd u)))"
proof -
  from assms have a: "fst (cmd w) = fst (cmd u)" and b: "same_at k (snd (cmd w)) (snd (cmd u))"
    by (auto simp: stable_at_def)
  show ?thesis
    using a b by (cases "fst (cmd u)") (auto simp: count_error_def same_at_raised)
qed

lemma stable_at_kv_call:
  assumes "stable_at k cmd"
  shows "stable_at k (kv_call cmd)"
  unfolding stable_at_def
proof (intro allI impI)
  fix w u assume s: "same_at k w u"
  show "fst (kv_call cmd w) = fst (kv_call cmd u) \<and> same_at k (snd (kv_call cmd w)) (snd (kv_call cmd u))"
  proof (cases "plan w")
    case Nil
    then have "plan u = []" using s by (simp add: same_at_def)
    with Nil show ?thesis using stable_at_count_error[OF assms s] by (simp add: kv_call_def)
  next
    case (Cons df rest)
    then have pu: "plan u = df # rest" using s by (simp add: same_at_def)
    let ?w0 = "w\<lparr>clock := clock w + fst df, plan := rest\<rparr>"
    let ?u0 = "u\<lparr>clock := clock u + fst df, plan := rest\<rparr>"
    have s0: "same_at k ?w0 ?u0" using s by (simp add: same_at_def)
    from assms s0 have b: "same_at k (snd (cmd ?w0)) (snd (cmd ?u0))"
      by (auto simp: stable_at_def)
    show ?thesis
      using stable_at_count_error[OF assms s0] s0 b Cons pu
      by (cases "snd df") (simp_all add: kv_call_def Let_def same_at_raised)
  qed
qed

lemma check_stable_at:
  assumes s: "same_at (rate_key ty identifier) w u"
  shows "fst (checkRateLimit identifier ty limit window w) = fst (checkRateLimit identifier ty limit window u)"
proof -
  let ?k = "rate_key ty identifier"
  have c: "clock w = clock u" using s by (simp add: same_at_def)
  have i: "fst (kv_call (redis_incr ?k) w) = fst (kv_call (redis_incr ?k) u)"
    and si: "same_at ?k (snd (kv_call (redis_incr ?k) w)) (snd (kv_call (redis_incr ?k) u))"
    using stable_at_kv_call[OF stable_at_incr] s by (auto simp: stable_at_def)
  obtain r1 w1 where w1: "kv_call (redis_incr ?k) w = (r1, w1)" by (cases "kv_call (redis_incr ?k) w")
  obtain u1 where u1: "kv_call (redis_incr ?k) u = (r1, u1)" using i w1 by (cases "kv_call (redis_incr ?k) u") auto
  have s1: "same_at ?k w1 u1" using si w1 u1 by simp
  have e: "fst (kv_call (redis_expire ?k window) w1) = fst (kv_call (redis_expire ?k window) u1)"
    and se: "same_at ?k (snd (kv_call (redis_expire ?k window) w1)) (snd (kv_call (redis_expire ?k window) u1))"
    using stable_at_kv_call[OF stable_at_expire] s1 by (auto simp: stable_at_def)
  obtain r2 w2 where w2: "kv_call (redis_expire ?k window) w1 = (r2, w2)" by (cases "kv_call (redis_expire ?k window) w1")
  obtain u2 where u2: "kv_call (redis_expire ?k window) u1 = (r2, u2)" using e w2 by (cases "kv_call (redis_expire ?k window) u1") auto
  have s2: "same_at ?k w2 u2" using se w2 u2 by simp
  have t: "\<And>a b. same_at ?k a b \<Longrightarrow> fst (kv_call (redis_ttl ?k) a) = fst (kv_call (redis_ttl ?k) b)"
    using stable_at_kv_call[OF stable_at_ttl] by (auto simp: stable_at_def)
  note t1 = t[OF s1] t[OF s2]
  show ?thesis
    using w1 u1 w2 u2 t1 c
    by (auto simp: checkRateLimit_def Let_def split: prod.splits sum.splits)
qed

lemma check_plan_Nil:
  assumes "plan w = []"
  shows "plan (snd (checkRateLimit identifier ty limit window w)) = [] \<and>
         clock (snd (checkRateLimit identifier ty limit window w)) = clock w"
proof -
  have n: "\<And>k cmd u. frame_cmd k cmd \<Longrightarrow> plan u = [] \<Longrightarrow>
             plan (snd (kv_call cmd u)) = [] \<and> clock (snd (kv_call cmd u)) = clock u"
    by (auto simp: kv_call_def count_error_def frame_cmd_def split: sum.splits)
  let ?k = "rate_key ty identifier"
  obtain r1 w1 where w1: "kv_call (redis_incr ?k) w = (r1, w1)" by (cases "kv_call (redis_incr ?k) w")
  have p1: "plan w1 = [] \<and> clock w1 = clock w" using n[OF frame_incr assms, of ?k] w1 by simp
  obtain r2 w2 where w2: "kv_call (redis_expire ?k window) w1 = (r2, w2)" by (cases "kv_call (redis_expire ?k window) w1")
  have p2: "plan w2 = [] \<and> clock w2 = clock w" using n[OF frame_expire, of w1 ?k window] p1 w2 by simp
  have p3: "\<And>u. plan u = [] \<and> clock u = clock w \<Longrightarrow>
      plan (snd (kv_call (redis_ttl ?k) u)) = [] \<and> clock (snd (kv_call (redis_ttl ?k) u)) = clock w"
    using n[OF frame_ttl, of _ ?k] by simp
  show ?thesis
    using w1 w2 p1 p2 p3[of w1] p3[of w2]
    by (auto simp: checkRateLimit_def Let_def split: prod.splits sum.splits)
qed

lemma check_independent:
  assumes "plan w = []" "(ty, identifier) \<noteq> (ty', identifier')"
  shows "fst (checkRateLimit identifier' ty' limit' window' (snd (checkRateLimit identifier ty limit window w)))
       = fst (checkRateLimit identifier' ty' limit' window' w)"
proof -
  have k: "rate_key ty' identifier' \<noteq> rate_key ty identifier"
    using assms(2) by (auto simp: rate_key_inj)
  show ?thesis
    by (rule check_stable_at)
       (simp add: same_at_def check_plan_Nil[OF assms(1)] assms(1) check_frame[OF k])
qed

subsection \<open>Takes, puts and runs\<close>

lemma secret_key_inj: "secret_key i = secret_key j \<longleftrightarrow> i = j"
  by (simp add: secret_key_def)

lemma kv_call_getdel_cases:
  assumes "kv_call (redis_getdel k) w = (r, w1)"
  shows "(entries w1 k = None \<or> (entries w1 k = entries w k \<and> (\<exists>e. r = Inl e)))
       \<and> (\<forall>k'. k' \<noteq> k \<longrightarrow> entries w1 k' = entries w k')
       \<and> clock w \<le> clock w1
       \<and> (entries w k = None \<longrightarrow> r = Inr JNull \<or> (\<exists>e. r = Inl e))"
  using assms
  by (cases "plan w")
     (auto simp: kv_call_def Let_def count_error_def redis_getdel_def live_def
           split: fault.splits option.splits if_splits)

lemma take_facts:
  assumes "retrieveAndDeleteSecret i w = (v, w1)"
  shows "v \<noteq> JNull \<Longrightarrow> entries w1 (secret_key i) = None"
    and "k \<noteq> secret_key i \<Longrightarrow> entries w1 k = entries w k"
    and "entries w (secret_key i) = None \<Longrightarrow> v = JNull \<and> entries w1 (secret_key i) = None"
    and "entries w1 (secret_key i) = None \<or> entries w1 (secret_key i) = entries w (secret_key i)"
    and "clock w \<le> clock w1"
proof -
  obtain r u where c: "kv_call (redis_getdel (secret_key i)) w = (r, u)"
    by (cases "kv_call (redis_getdel (secret_key i)) w")
  note f = kv_call_getdel_cases[OF c]
  have u: "w1 = u" using assms c
    by (auto simp: retrieveAndDeleteSecret_def Let_def split: sum.splits if_splits js_value.splits)
  have vn: "(\<exists>e. r = Inl e) \<Longrightarrow> v = JNull" using assms c
    by (auto simp: retrieveAndDeleteSecret_def Let_def)
  have vj: "r = Inr JNull \<Longrightarrow> v = JNull" using assms c
    by (auto simp: retrieveAndDeleteSecret_def Let_def)
  show "v \<noteq> JNull \<Longrightarrow> entries w1 (secret_key i) = None" using f vn u by auto
  show "k \<noteq> secret_key i \<Longrightarrow> entries w1 k = entries w k" using f u by auto
  show "entries w (secret_key i) = None \<Longrightarrow> v = JNull \<and> entries w1 (secret_key i) = None"
    using f u vn vj by auto
  show "entries w1 (secret_key i) = None \<or> entries w1 (secret_key i) = entries w (secret_key i)"
    using f u by auto
  show "clock w \<le> clock w1" using f u by auto
qed

lemma kv_call_setex_cases:
  assumes "kv_call (redis_setex k s v) w = (r, w1)"
  shows "(\<forall>k'. k' \<noteq> k \<longrightarrow> entries w1 k' = entries w k')
       \<and> clock w \<le> clock w1
       \<and> (r = Inr () \<longrightarrow> 0 < s \<and> entries w1 k = Some \<lparr>val = v, expires = Some (clock w1 + nat s * 1000)\<rparr>)"
  using assms
  by (cases "plan w")
     (auto simp: kv_call_def Let_def count_error_def redis_setex_def
           split: fault.splits option.splits if_splits)

lemma store_facts:
  assumes "storeSecret i d w = (r, w1)"
  shows "k \<noteq> secret_key i \<Longrightarrow> entries w1 k = entries w k"
    and "clock w \<le> clock w1"
    and "r = Inr j \<Longrightarrow> j = i \<and> (\<exists>v. entries w1 (secret_key i) = Some \<lparr>val = v, expires = Some (clock w1 + 86400000)\<rparr>)"
proof -
  let ?v = "JStr (JSON_stringify (JObj \<lparr>encryptedData = d, createdAt = int (clock w)\<rparr>))"
  obtain r0 u where c: "kv_call (redis_setex (secret_key i) SECRET_TTL ?v) w = (r0, u)"
    by (cases "kv_call (redis_setex (secret_key i) SECRET_TTL ?v) w")
  note f = kv_call_setex_cases[OF c]
  have u: "w1 = u" using assms c by (auto simp: storeSecret_def Let_def split: sum.splits)
  have rr: "r = Inr j \<Longrightarrow> r0 = Inr () \<and> j = i" using assms c by (auto simp: storeSecret_def Let_def split: sum.splits)
  show "k \<noteq> secret_key i \<Longrightarrow> entries w1 k = entries w k" using f u by auto
  show "clock w \<le> clock w1" using f u by auto
  show "r = Inr j \<Longrightarrow> j = i \<and> (\<exists>v. entries w1 (secret_key i) = Some \<lparr>val = v, expires = Some (clock w1 + 86400000)\<rparr>)"
    using f u rr by (auto simp: SECRET_TTL_def)
qed

lemma step_other:
  assumes "\<not> is_put i e" "e \<noteq> Take i"
  shows "entries (snd (step e w)) (secret_key i) = entries w (secret_key i)"
proof (cases e)
  case (Take j)
  then have "secret_key i \<noteq> secret_key j" using assms by (simp add: secret_key_inj)
  then show ?thesis using Take take_facts(2)[of j w "fst (retrieveAndDeleteSecret j w)" "snd (retrieveAndDeleteSecret j w)" "secret_key i"]
    by simp
next
  case (Put j d)
  then have "secret_key i \<noteq> secret_key j" using assms by (simp add: secret_key_inj)
  then show ?thesis using Put store_facts(1)[of j d w "fst (storeSecret j d w)" "snd (storeSecret j d w)" "secret_key i"]
    by simp
next
  case (Wait n)
  then show ?thesis by simp
qed

lemma step_no_put:
  assumes "\<not> is_put i e"
  shows "entries (snd (step e w)) (secret_key i) = None \<or>
         entries (snd (step e w)) (secret_key i) = entries w (secret_key i)"
proof (cases "e = Take i")
  case True
  then show ?thesis
    using take_facts(4)[of i w "fst (retrieveAndDeleteSecret i w)" "snd (retrieveAndDeleteSecret i w)"] by simp
next
  case False
  then show ?thesis using step_other[OF assms] by simp
qed

lemma step_clock: "clock w \<le> clock (snd (step e w))"
proof (cases e)
  case (Take j)
  then show ?thesis using take_facts(5)[of j w "fst (retrieveAndDeleteSecret j w)" "snd (retrieveAndDeleteSecret j w)"] by simp
next
  case (Put j d)
  then show ?thesis using store_facts(2)[of j d w "fst (storeSecret j d w)" "snd (storeSecret j d w)"] by simp
next
  case (Wait n)
  then show ?thesis by simp
qed

lemma successes_absent:
  "entries w (secret_key i) = None \<Longrightarrow> puts i evs = 0 \<Longrightarrow> successes i evs w = 0"
proof (induction evs arbitrary: w)
  case Nil
  then show ?case by simp
next
  case (Cons e es)
  from Cons.prems have np: "\<not> is_put i e" and pe: "puts i es = 0"
    by (auto simp: puts_def split: if_splits)
  have a: "entries (snd (step e w)) (secret_key i) = None"
    using step_no_put[OF np, of w] Cons.prems(1) by auto
  have b: "e = Take i \<Longrightarrow> fst (step e w) = JNull"
    using take_facts(3)[of i w "fst (retrieveAndDeleteSecret i w)" "snd (retrieveAndDeleteSecret i w)"] Cons.prems(1)
    by simp
  show ?case using Cons.IH[OF a pe] b by auto
qed

lemma successes_no_put: "puts i evs = 0 \<Longrightarrow> successes i evs w \<le> 1"
proof (induction evs arbitrary: w)
  case Nil
  then show ?case by simp
next
  case (Cons e es)
  from Cons.prems have np: "\<not> is_put i e" and pe: "puts i es = 0"
    by (auto simp: puts_def split: if_splits)
  show ?case
  proof (cases "e = Take i \<and> fst (step e w) \<noteq> JNull")
    case True
    then have "entries (snd (step e w)) (secret_key i) = None"
      using take_facts(1)[of i w "fst (retrieveAndDeleteSecret i w)" "snd (retrieveAndDeleteSecret i w)"] by auto
    then have "successes i es (snd (step e w)) = 0" using successes_absent pe by blast
    then show ?thesis using True by simp
  next
    case False
    then show ?thesis using Cons.IH[OF pe, of "snd (step e w)"] by auto
  qed
qed

lemma successes_one_put:
  "entries w (secret_key i) = None \<Longrightarrow> puts i evs \<le> 1 \<Longrightarrow> successes i evs w \<le> 1"
proof (induction evs arbitrary: w)
  case Nil
  then show ?case by simp
next
  case (Cons e es)
  show ?case
  proof (cases "is_put i e")
    case True
    then have pe: "puts i es = 0" using Cons.prems(2) by (simp add: puts_def)
    have "e \<noteq> Take i" using True by auto
    then show ?thesis using successes_no_put[OF pe, of "snd (step e w)"] by simp
  next
    case False
    then have pe: "puts i es \<le> 1" using Cons.prems(2) by (simp add: puts_def)
    have a: "entries (snd (step e w)) (secret_key i) = None"
      using step_no_put[OF False, of w] Cons.prems(1) by auto
    have b: "e = Take i \<Longrightarrow> fst (step e w) = JNull"
      using take_facts(3)[of i w "fst (retrieveAndDeleteSecret i w)" "snd (retrieveAndDeleteSecret i w)"] Cons.prems(1)
      by simp
    show ?thesis using Cons.IH[OF a pe] b by auto
  qed
qed

lemma run_keeps:
  "puts i evs = 0 \<Longrightarrow>
   (entries (run evs w) (secret_key i) = None \<or> entries (run evs w) (secret_key i) = entries w (secret_key i))
   \<and> clock w \<le> clock (run evs w)"
proof (induction evs arbitrary: w)
  case Nil
  then show ?case by simp
next
  case (Cons e es)
  from Cons.prems have np: "\<not> is_put i e" and pe: "puts i es = 0"
    by (auto simp: puts_def split: if_splits)
  show ?case
    using Cons.IH[OF pe, of "snd (step e w)"] step_no_put[OF np, of w] step_clock[of w e]
    by auto
qed

lemma take_dead:
  assumes "live w (secret_key i) = None"
  shows "fst (retrieveAndDeleteSecret i w) = JNull"
proof -
  have a: "\<And>d. live (w\<lparr>clock := clock w + d, plan := p\<rparr>) (secret_key i) = None" for p
    using assms by (auto simp: live_def split: option.splits if_splits)
  show ?thesis
    using assms a
    by (cases "plan w")
       (auto simp: retrieveAndDeleteSecret_def kv_call_def Let_def count_error_def redis_getdel_def
             split: fault.splits prod.splits sum.splits)
qed

subsection \<open>The identifier schema\<close>

lemma id_char_alphabet_1: "c \<in> set id_alphabet \<Longrightarrow> id_char c"
  by (auto simp: id_alphabet_def id_char_def)

lemma id_char_alphabet_2: "id_char c \<Longrightarrow> c \<in> set id_alphabet"
proof -
  assume a: "id_char c"
  obtain b0 b1 b2 b3 b4 b5 b6 b7 where c: "c = Char b0 b1 b2 b3 b4 b5 b6 b7" by (cases c)
  show ?thesis using a unfolding c id_char_def id_alphabet_def Let_def
    by (cases b0; cases b1; cases b2; cases b3; cases b4; cases b5; cases b6; cases b7) simp_all
qed

subsection \<open>The claims about the store, the limiter and the handler\<close>

text \<open>
  Claim C1. For every identifier at most one take returns a record. In every run of
  takes, puts and waits, from a store where \<open>i\<close> is absent and with at most one put
  under \<open>i\<close> (or from any store, with no put under \<open>i\<close>), at most one take of \<open>i\<close>
  returns a value other than \<open>JNull\<close>. A take that returns a record has removed the
  entry in the same store command, so the next take returns \<open>JNull\<close>. Once the 24 hours
  (86400000 ms) after a successful \<open>storeSecret\<close> have passed, a take returns
  \<open>JNull\<close>; and a take of an expired identifier returns what it returns on the store
  where the identifier never existed.
\<close>

theorem take_at_most_once:
  "(entries w (secret_key i) = None \<and> puts i evs \<le> 1 \<longrightarrow> successes i evs w \<le> 1)
   \<and> (puts i evs = 0 \<longrightarrow> successes i evs w \<le> 1)
   \<and> (fst (retrieveAndDeleteSecret i w) \<noteq> JNull \<longrightarrow>
        entries (snd (retrieveAndDeleteSecret i w)) (secret_key i) = None
        \<and> fst (retrieveAndDeleteSecret i (snd (retrieveAndDeleteSecret i w))) = JNull)
   \<and> (fst (storeSecret i d w) = Inr i \<and> puts i evs = 0
        \<and> clock (snd (storeSecret i d w)) + 86400000 \<le> clock (run evs (snd (storeSecret i d w))) \<longrightarrow>
        fst (retrieveAndDeleteSecret i (run evs (snd (storeSecret i d w)))) = JNull)
   \<and> (live w (secret_key i) = None \<longrightarrow>
        fst (retrieveAndDeleteSecret i w) = JNull
        \<and> fst (retrieveAndDeleteSecret i w) =
          fst (retrieveAndDeleteSecret i (w\<lparr>entries := (entries w)(secret_key i := None)\<rparr>)))"
proof (intro conjI impI)
  assume "entries w (secret_key i) = None \<and> puts i evs \<le> 1"
  then show "successes i evs w \<le> 1" using successes_one_put by blast
next
  assume "puts i evs = 0"
  then show "successes i evs w \<le> 1" by (rule successes_no_put)
next
  assume a: "fst (retrieveAndDeleteSecret i w) \<noteq> JNull"
  have t: "retrieveAndDeleteSecret i w = (fst (retrieveAndDeleteSecret i w), snd (retrieveAndDeleteSecret i w))"
    by simp
  show g: "entries (snd (retrieveAndDeleteSecret i w)) (secret_key i) = None"
    using take_facts(1)[OF t a] .
  show "fst (retrieveAndDeleteSecret i (snd (retrieveAndDeleteSecret i w))) = JNull"
    by (rule take_dead) (simp add: live_def g)
next
  let ?w1 = "snd (storeSecret i d w)"
  assume a: "fst (storeSecret i d w) = Inr i \<and> puts i evs = 0
        \<and> clock ?w1 + 86400000 \<le> clock (run evs ?w1)"
  then have t: "storeSecret i d w = (Inr i, ?w1)" by (metis prod.collapse)
  from store_facts(3)[OF t refl] obtain v where
    e: "entries ?w1 (secret_key i) = Some \<lparr>val = v, expires = Some (clock ?w1 + 86400000)\<rparr>"
    by blast
  from a have p: "puts i evs = 0" by simp
  have "live (run evs ?w1) (secret_key i) = None"
    using run_keeps[OF p, of ?w1] e a by (auto simp: live_def)
  then show "fst (retrieveAndDeleteSecret i (run evs ?w1)) = JNull" by (rule take_dead)
next
  assume a: "live w (secret_key i) = None"
  show "fst (retrieveAndDeleteSecret i w) = JNull" using a by (rule take_dead)
next
  assume a: "live w (secret_key i) = None"
  have "live (w\<lparr>entries := (entries w)(secret_key i := None)\<rparr>) (secret_key i) = None"
    by (simp add: live_def)
  then show "fst (retrieveAndDeleteSecret i w) =
          fst (retrieveAndDeleteSecret i (w\<lparr>entries := (entries w)(secret_key i := None)\<rparr>))"
    using take_dead[OF a] take_dead by simp
qed

lemmas kv_eval = storeSecret_def retrieveAndDeleteSecret_def kv_call_def count_error_def
  redis_getdel_def redis_setex_def redis_incr_def redis_expire_def redis_ttl_def live_def
  secret_key_def SECRET_TTL_def JSON_stringify_def puts_def Let_def

theorem take_at_most_once_witness:
  "entries \<lparr>clock = 0, entries = Map.empty, plan = [], raised = 0\<rparr> (secret_key ''V1StGXR8_Z5jdHi6B-myT'') = None
   \<and> puts ''V1StGXR8_Z5jdHi6B-myT'' [Put ''V1StGXR8_Z5jdHi6B-myT'' ''AAAA'', Take ''V1StGXR8_Z5jdHi6B-myT'', Take ''V1StGXR8_Z5jdHi6B-myT''] \<le> 1
   \<and> successes ''V1StGXR8_Z5jdHi6B-myT'' [Put ''V1StGXR8_Z5jdHi6B-myT'' ''AAAA'', Take ''V1StGXR8_Z5jdHi6B-myT'', Take ''V1StGXR8_Z5jdHi6B-myT''] \<lparr>clock = 0, entries = Map.empty, plan = [], raised = 0\<rparr> = 1
   \<and> puts ''V1StGXR8_Z5jdHi6B-myT'' [Take ''V1StGXR8_Z5jdHi6B-myT'', Wait 5, Take ''V1StGXR8_Z5jdHi6B-myT''] = 0
   \<and> successes ''V1StGXR8_Z5jdHi6B-myT'' [Take ''V1StGXR8_Z5jdHi6B-myT'', Wait 5, Take ''V1StGXR8_Z5jdHi6B-myT''] \<lparr>clock = 5, entries = [secret_key ''V1StGXR8_Z5jdHi6B-myT'' \<mapsto> \<lparr>val = JStr (JsonText (JObj \<lparr>encryptedData = ''AAAA'', createdAt = 0\<rparr>)), expires = Some 86400000\<rparr>], plan = [], raised = 0\<rparr> \<le> 1
   \<and> fst (retrieveAndDeleteSecret ''V1StGXR8_Z5jdHi6B-myT'' \<lparr>clock = 5, entries = [secret_key ''V1StGXR8_Z5jdHi6B-myT'' \<mapsto> \<lparr>val = JStr (JsonText (JObj \<lparr>encryptedData = ''AAAA'', createdAt = 0\<rparr>)), expires = Some 86400000\<rparr>], plan = [], raised = 0\<rparr>) = JObj \<lparr>encryptedData = ''AAAA'', createdAt = 0\<rparr>
   \<and> fst (retrieveAndDeleteSecret ''V1StGXR8_Z5jdHi6B-myT'' (snd (retrieveAndDeleteSecret ''V1StGXR8_Z5jdHi6B-myT'' \<lparr>clock = 5, entries = [secret_key ''V1StGXR8_Z5jdHi6B-myT'' \<mapsto> \<lparr>val = JStr (JsonText (JObj \<lparr>encryptedData = ''AAAA'', createdAt = 0\<rparr>)), expires = Some 86400000\<rparr>], plan = [], raised = 0\<rparr>))) = JNull
   \<and> fst (storeSecret ''V1StGXR8_Z5jdHi6B-myT'' ''AAAA'' \<lparr>clock = 0, entries = Map.empty, plan = [], raised = 0\<rparr>) = Inr ''V1StGXR8_Z5jdHi6B-myT''
   \<and> fst (retrieveAndDeleteSecret ''V1StGXR8_Z5jdHi6B-myT'' (run [Wait 86400000] (snd (storeSecret ''V1StGXR8_Z5jdHi6B-myT'' ''AAAA'' \<lparr>clock = 0, entries = Map.empty, plan = [], raised = 0\<rparr>)))) = JNull
   \<and> live \<lparr>clock = 86400000, entries = [secret_key ''V1StGXR8_Z5jdHi6B-myT'' \<mapsto> \<lparr>val = JStr (JsonText (JObj \<lparr>encryptedData = ''AAAA'', createdAt = 0\<rparr>)), expires = Some 86400000\<rparr>], plan = [], raised = 0\<rparr> (secret_key ''V1StGXR8_Z5jdHi6B-myT'') = None
   \<and> fst (retrieveAndDeleteSecret ''V1StGXR8_Z5jdHi6B-myT'' \<lparr>clock = 86400000, entries = [secret_key ''V1StGXR8_Z5jdHi6B-myT'' \<mapsto> \<lparr>val = JStr (JsonText (JObj \<lparr>encryptedData = ''AAAA'', createdAt = 0\<rparr>)), expires = Some 86400000\<rparr>], plan = [], raised = 0\<rparr>) = JNull"
  using take_at_most_once[of "\<lparr>clock = 0, entries = Map.empty, plan = [], raised = 0\<rparr>" "''V1StGXR8_Z5jdHi6B-myT''" "[Put ''V1StGXR8_Z5jdHi6B-myT'' ''AAAA'', Take ''V1StGXR8_Z5jdHi6B-myT'', Take ''V1StGXR8_Z5jdHi6B-myT'']" "''AAAA''"]
        take_at_most_once[of "\<lparr>clock = 5, entries = [secret_key ''V1StGXR8_Z5jdHi6B-myT'' \<mapsto> \<lparr>val = JStr (JsonText (JObj \<lparr>encryptedData = ''AAAA'', createdAt = 0\<rparr>)), expires = Some 86400000\<rparr>], plan = [], raised = 0\<rparr>" "''V1StGXR8_Z5jdHi6B-myT''" "[Take ''V1StGXR8_Z5jdHi6B-myT'', Wait 5, Take ''V1StGXR8_Z5jdHi6B-myT'']" "''AAAA''"]
        take_at_most_once[of "\<lparr>clock = 0, entries = Map.empty, plan = [], raised = 0\<rparr>" "''V1StGXR8_Z5jdHi6B-myT''" "[Wait 86400000]" "''AAAA''"]
        take_at_most_once[of "\<lparr>clock = 86400000, entries = [secret_key ''V1StGXR8_Z5jdHi6B-myT'' \<mapsto> \<lparr>val = JStr (JsonText (JObj \<lparr>encryptedData = ''AAAA'', createdAt = 0\<rparr>)), expires = Some 86400000\<rparr>], plan = [], raised = 0\<rparr>" "''V1StGXR8_Z5jdHi6B-myT''" "[]" "''AAAA''"]
  by (simp add: kv_eval)

text \<open>
  Claim C2, as amended. When the one store command of a take raises (a transport error,
  a timeout, a command error), \<open>retrieveAndDeleteSecret\<close> catches it and returns
  \<open>JNull\<close>: the value it returns for a missing record. The counterexample to the claim
  as stated follows: the same identifier, once on a store whose read is refused, once on
  a store that never held it, with the same result.
\<close>

theorem read_error_returns_absent:
  "isl (fst (kv_call (redis_getdel (secret_key i)) w)) \<longrightarrow>
     retrieveAndDeleteSecret i w = (JNull, snd (kv_call (redis_getdel (secret_key i)) w))"
  by (cases "kv_call (redis_getdel (secret_key i)) w")
     (auto simp: retrieveAndDeleteSecret_def Let_def split: sum.splits)

theorem read_error_returns_absent_witness:
  "isl (fst (kv_call (redis_getdel (secret_key ''V1StGXR8_Z5jdHi6B-myT'')) \<lparr>clock = 5, entries = [secret_key ''V1StGXR8_Z5jdHi6B-myT'' \<mapsto> \<lparr>val = JStr (JsonText (JObj \<lparr>encryptedData = ''AAAA'', createdAt = 0\<rparr>)), expires = Some 86400000\<rparr>], plan = [(30000, Lost)], raised = 0\<rparr>))
   \<and> fst (retrieveAndDeleteSecret ''V1StGXR8_Z5jdHi6B-myT'' \<lparr>clock = 5, entries = [secret_key ''V1StGXR8_Z5jdHi6B-myT'' \<mapsto> \<lparr>val = JStr (JsonText (JObj \<lparr>encryptedData = ''AAAA'', createdAt = 0\<rparr>)), expires = Some 86400000\<rparr>], plan = [(30000, Lost)], raised = 0\<rparr>) = JNull"
  using read_error_returns_absent[of "''V1StGXR8_Z5jdHi6B-myT''" "\<lparr>clock = 5, entries = [secret_key ''V1StGXR8_Z5jdHi6B-myT'' \<mapsto> \<lparr>val = JStr (JsonText (JObj \<lparr>encryptedData = ''AAAA'', createdAt = 0\<rparr>)), expires = Some 86400000\<rparr>], plan = [(30000, Lost)], raised = 0\<rparr>"]
  by (simp add: kv_eval)

theorem read_error_distinct_counterexample:
  "fst (kv_call (redis_getdel (secret_key ''V1StGXR8_Z5jdHi6B-myT'')) \<lparr>clock = 5, entries = [secret_key ''V1StGXR8_Z5jdHi6B-myT'' \<mapsto> \<lparr>val = JStr (JsonText (JObj \<lparr>encryptedData = ''AAAA'', createdAt = 0\<rparr>)), expires = Some 86400000\<rparr>], plan = [(0, Refused)], raised = 0\<rparr>) = Inl TransportError
   \<and> fst (retrieveAndDeleteSecret ''V1StGXR8_Z5jdHi6B-myT'' \<lparr>clock = 5, entries = [secret_key ''V1StGXR8_Z5jdHi6B-myT'' \<mapsto> \<lparr>val = JStr (JsonText (JObj \<lparr>encryptedData = ''AAAA'', createdAt = 0\<rparr>)), expires = Some 86400000\<rparr>], plan = [(0, Refused)], raised = 0\<rparr>) = JNull
   \<and> fst (kv_call (redis_getdel (secret_key ''V1StGXR8_Z5jdHi6B-myT'')) \<lparr>clock = 0, entries = Map.empty, plan = [], raised = 0\<rparr>) = Inr JNull
   \<and> fst (retrieveAndDeleteSecret ''V1StGXR8_Z5jdHi6B-myT'' \<lparr>clock = 0, entries = Map.empty, plan = [], raised = 0\<rparr>) = JNull"
  by (simp add: kv_eval)


text \<open>
  Claim C3. For every identifier, endpoint type, limit and window: if any store command
  that \<open>checkRateLimit\<close> performs raises an error (the client's error count has grown
  over the call), the result is \<open>allowed = False\<close> with \<open>remaining = 0\<close>.
\<close>

theorem limiter_fails_closed:
  "raised (snd (checkRateLimit identifier ty limit window w)) \<noteq> raised w \<longrightarrow>
     \<not> allowed (fst (checkRateLimit identifier ty limit window w)) \<and>
     remaining (fst (checkRateLimit identifier ty limit window w)) = 0"
  by (auto simp: checkRateLimit_def Let_def denied_def split: prod.splits sum.splits if_splits
      dest!: kv_call_Inr_raised[OF frame_incr] kv_call_Inr_raised[OF frame_expire]
             kv_call_Inr_raised[OF frame_ttl])

lemmas limiter_eval = checkRateLimit_def kv_call_def count_error_def redis_incr_def
  redis_expire_def redis_ttl_def live_def rate_key_def denied_def Let_def

theorem limiter_fails_closed_witness:
  "raised (snd (checkRateLimit ''203.0.113.7'' Share 10 60 \<lparr>clock = 1000, entries = Map.empty, plan = [(5, NoFault), (7, Lost)], raised = 0\<rparr>)) \<noteq> 0
   \<and> \<not> allowed (fst (checkRateLimit ''203.0.113.7'' Share 10 60 \<lparr>clock = 1000, entries = Map.empty, plan = [(5, NoFault), (7, Lost)], raised = 0\<rparr>))
   \<and> remaining (fst (checkRateLimit ''203.0.113.7'' Share 10 60 \<lparr>clock = 1000, entries = Map.empty, plan = [(5, NoFault), (7, Lost)], raised = 0\<rparr>)) = 0"
  using limiter_fails_closed[of "''203.0.113.7''" Share 10 60 "\<lparr>clock = 1000, entries = Map.empty, plan = [(5, NoFault), (7, Lost)], raised = 0\<rparr>"]
  by (simp add: limiter_eval)

text \<open>
  Claim C4. A check for identifier \<open>identifier\<close> under endpoint type \<open>ty\<close> leaves the
  entry (value and expiry) of every other counter as it was; and, run on a store with no
  delays and faults planned, it does not change what a check of another counter returns.
\<close>

theorem limiter_frame:
  "(ty', identifier') \<noteq> (ty, identifier) \<longrightarrow>
     entries (snd (checkRateLimit identifier ty limit window w)) (rate_key ty' identifier')
       = entries w (rate_key ty' identifier')
     \<and> (plan w = [] \<longrightarrow>
          fst (checkRateLimit identifier' ty' limit' window'
                 (snd (checkRateLimit identifier ty limit window w)))
            = fst (checkRateLimit identifier' ty' limit' window' w))"
proof (intro impI conjI)
  assume a: "(ty', identifier') \<noteq> (ty, identifier)"
  then have k: "rate_key ty' identifier' \<noteq> rate_key ty identifier"
    by (auto simp: rate_key_inj)
  show "entries (snd (checkRateLimit identifier ty limit window w)) (rate_key ty' identifier')
       = entries w (rate_key ty' identifier')"
    by (rule check_frame[OF k])
  assume p: "plan w = []"
  from a have "(ty, identifier) \<noteq> (ty', identifier')" by auto
  from check_independent[OF p this]
  show "fst (checkRateLimit identifier' ty' limit' window'
                 (snd (checkRateLimit identifier ty limit window w)))
            = fst (checkRateLimit identifier' ty' limit' window' w)" .
qed

theorem limiter_frame_witness:
  "(Retrieve, ''198.51.100.9'') \<noteq> (Share, ''203.0.113.7'')
   \<and> entries (snd (checkRateLimit ''203.0.113.7'' Share 10 60 \<lparr>clock = 1000, entries = [rate_key Retrieve ''198.51.100.9'' \<mapsto> \<lparr>val = JNum 3, expires = Some 50000\<rparr>], plan = [], raised = 0\<rparr>)) (rate_key Retrieve ''198.51.100.9'')
       = Some \<lparr>val = JNum 3, expires = Some 50000\<rparr>
   \<and> fst (checkRateLimit ''198.51.100.9'' Retrieve 20 60 (snd (checkRateLimit ''203.0.113.7'' Share 10 60 \<lparr>clock = 1000, entries = [rate_key Retrieve ''198.51.100.9'' \<mapsto> \<lparr>val = JNum 3, expires = Some 50000\<rparr>], plan = [], raised = 0\<rparr>)))
       = \<lparr>allowed = True, remaining = 16, resetTime = 61000\<rparr>
   \<and> fst (checkRateLimit ''198.51.100.9'' Retrieve 20 60 \<lparr>clock = 1000, entries = [rate_key Retrieve ''198.51.100.9'' \<mapsto> \<lparr>val = JNum 3, expires = Some 50000\<rparr>], plan = [], raised = 0\<rparr>)
       = \<lparr>allowed = True, remaining = 16, resetTime = 61000\<rparr>"
  using limiter_frame[of Retrieve "''198.51.100.9''" Share "''203.0.113.7''" 10 60 "\<lparr>clock = 1000, entries = [rate_key Retrieve ''198.51.100.9'' \<mapsto> \<lparr>val = JNum 3, expires = Some 50000\<rparr>], plan = [], raised = 0\<rparr>" 20 60]
  by (simp add: limiter_eval)

text \<open>
  Claim C8. A path identifier that is not exactly 21 characters of the alphabet
  \<^verbatim>\<open>[A-Za-z0-9_-]\<close> is answered with status 400 and the store is left exactly as it
  was: no command was sent to it (the plan is not consumed), no counter and no secret
  changed.
\<close>

theorem malformed_id_rejected_first:
  "\<not> (length path_id = 21 \<and> set path_id \<subseteq> set id_alphabet) \<longrightarrow>
     status (fst (GET clientIP path_id w)) = 400 \<and> snd (GET clientIP path_id w) = w"
proof -
  have "list_all id_char path_id \<longleftrightarrow> set path_id \<subseteq> set id_alphabet"
    using id_char_alphabet_1 id_char_alphabet_2 by (auto simp: list_all_iff)
  then show ?thesis
    by (auto simp: GET_def secretIdSchema_safeParse_def)
qed

theorem malformed_id_rejected_first_witness:
  "\<not> (length ''V1StGXR8_Z5jdHi6B-my!'' = 21 \<and> set ''V1StGXR8_Z5jdHi6B-my!'' \<subseteq> set id_alphabet)
   \<and> status (fst (GET ''203.0.113.7'' ''V1StGXR8_Z5jdHi6B-my!'' \<lparr>clock = 1000, entries = [rate_key Retrieve ''198.51.100.9'' \<mapsto> \<lparr>val = JNum 3, expires = Some 50000\<rparr>], plan = [], raised = 0\<rparr>)) = 400
   \<and> snd (GET ''203.0.113.7'' ''V1StGXR8_Z5jdHi6B-my!'' \<lparr>clock = 1000, entries = [rate_key Retrieve ''198.51.100.9'' \<mapsto> \<lparr>val = JNum 3, expires = Some 50000\<rparr>], plan = [], raised = 0\<rparr>) = \<lparr>clock = 1000, entries = [rate_key Retrieve ''198.51.100.9'' \<mapsto> \<lparr>val = JNum 3, expires = Some 50000\<rparr>], plan = [], raised = 0\<rparr>
   \<and> length ''../../etc/passwd'' \<noteq> 21
   \<and> fst (GET ''203.0.113.7'' ''../../etc/passwd'' \<lparr>clock = 1000, entries = [rate_key Retrieve ''198.51.100.9'' \<mapsto> \<lparr>val = JNum 3, expires = Some 50000\<rparr>], plan = [], raised = 0\<rparr>)
       = \<lparr>status = 400, body = ErrorBody ''Invalid secret ID format'',
           rateLimitHeaders = None, noStore = False\<rparr>"
  using malformed_id_rejected_first[of "''V1StGXR8_Z5jdHi6B-my!''" "''203.0.113.7''" "\<lparr>clock = 1000, entries = [rate_key Retrieve ''198.51.100.9'' \<mapsto> \<lparr>val = JNum 3, expires = Some 50000\<rparr>], plan = [], raised = 0\<rparr>"]
        malformed_id_rejected_first[of "''../../etc/passwd''" "''203.0.113.7''" "\<lparr>clock = 1000, entries = [rate_key Retrieve ''198.51.100.9'' \<mapsto> \<lparr>val = JNum 3, expires = Some 50000\<rparr>], plan = [], raised = 0\<rparr>"]
  by (simp add: id_alphabet_def GET_def secretIdSchema_safeParse_def id_char_def)

subsection \<open>Password strength\<close>

lemma if_plus1: "(if c then x + 1 else x) = x + (if c then 1 else (0::int))"
  by simp
lemma if_minus1: "(if c then x - 1 else x) = x - (if c then 1 else (0::int))"
  by simp

lemma variety_count: "varietyCount pw = class_count pw"
  by (simp add: varietyCount_def class_count_def)

lemma raw_score_sum:
  "raw_score pw = points pw - (if hasRepeatingChars pw then 1 else 0)
                            - (if hasSequentialChars pw then 1 else 0)"
  unfolding raw_score_def Let_def points_def variety_count if_plus1 if_minus1
  by (simp split del: if_split)

lemma clamp04_max_min: "max 0 (min 4 x) = clamp04 x"
  by (simp add: clamp04_def)

lemma label_color_clamp: "fst (label_color (clamp04 x)) = label_of (clamp04 x)"
  by (simp add: label_color_def label_of_def clamp04_def)

lemma window3_index:
  "window3 P s \<longleftrightarrow> (\<exists>i. i + 2 < length s \<and> P (s ! i) (s ! (i + 1)) (s ! (i + 2)))"
proof (induction P s rule: window3.induct)
  case (1 P a b c rest)
  let ?s = "a # b # c # rest"
  let ?Q = "\<lambda>s i. i + 2 < length s \<and> P (s ! i) (s ! (i + 1)) (s ! (i + 2))"
  have "(\<exists>i. ?Q ?s i) \<longleftrightarrow> ?Q ?s 0 \<or> (\<exists>i. ?Q ?s (Suc i))"
    by (metis not0_implies_Suc)
  also have "\<dots> \<longleftrightarrow> P a b c \<or> (\<exists>i. ?Q (b # c # rest) i)" by simp
  finally show ?case using 1 by simp
qed simp_all

lemma window3_mono: "(\<And>a b c. P a b c \<Longrightarrow> Q a b c) \<Longrightarrow> window3 P s \<Longrightarrow> window3 Q s"
  by (induction P s rule: window3.induct) auto

lemma hasRepeatingChars_window: "hasRepeatingChars pw = window3 same3_visible pw"
  by (induction pw rule: hasRepeatingChars.induct) (simp_all add: same3_visible_def)

lemma sequences_run:
  assumes "[x, y, z] \<in> set sequences"
  shows "consecutive3 x y z \<and>
     ((is_lower x \<and> is_lower z) \<or> (49 \<le> (of_char x :: nat) \<and> (of_char z :: nat) \<le> 57))"
proof -
  from assms have "(x, y, z) \<in> set (map (\<lambda>s. (s ! 0, s ! 1, s ! 2)) sequences)"
    by (force simp: image_iff)
  then show ?thesis
    unfolding sequences_def consecutive3_def is_lower_def
    by (simp only: list.map set_simps insert_iff empty_iff) (elim disjE; simp)
qed

lemma char_by_code: "(of_char y :: nat) = n \<Longrightarrow> y = char_of n"
  by auto

lemma run_starts:
  assumes "(97 \<le> (of_char x :: nat) \<and> (of_char x :: nat) \<le> 120)
         \<or> (49 \<le> (of_char x :: nat) \<and> (of_char x :: nat) \<le> 55)"
  shows "x \<in> set ''abcdefghijklmnopqrstuvwx1234567''"
proof -
  obtain b0 b1 b2 b3 b4 b5 b6 b7 where c: "x = Char b0 b1 b2 b3 b4 b5 b6 b7" by (cases x)
  show ?thesis using assms unfolding c
    by (cases b0; cases b1; cases b2; cases b3; cases b4; cases b5; cases b6; cases b7) simp_all
qed

lemma run_sequences:
  assumes "consecutive3 x y z"
    "(is_lower x \<and> is_lower z) \<or> (49 \<le> (of_char x :: nat) \<and> (of_char z :: nat) \<le> 57)"
  shows "[x, y, z] \<in> set sequences"
proof -
  have y: "y = char_of ((of_char x :: nat) + 1)"
    using assms(1) by (auto simp: consecutive3_def intro: char_by_code)
  have z: "z = char_of ((of_char x :: nat) + 2)"
    using assms(1) by (auto simp: consecutive3_def intro: char_by_code)
  have zc: "(of_char z :: nat) = of_char x + 2" using assms(1) by (simp add: consecutive3_def)
  have "(97 \<le> (of_char x :: nat) \<and> (of_char x :: nat) \<le> 120)
         \<or> (49 \<le> (of_char x :: nat) \<and> (of_char x :: nat) \<le> 55)"
    using assms(2) zc by (auto simp: is_lower_def)
  then have "x \<in> set ''abcdefghijklmnopqrstuvwx1234567''" by (rule run_starts)
  then show ?thesis unfolding y z
    by (simp only: set_simps insert_iff empty_iff)
       (elim disjE; simp add: sequences_def char_of_def bit_Suc_0_iff)
qed

lemma known_run_ascending3: "known_run a b c \<Longrightarrow> ascending3 a b c"
  by (auto simp: known_run_def ascending3_def is_digit_def consecutive3_def ignore_case_def
        is_upper_def split: if_splits)

lemma sequences_known_run:
  "[ignore_case a, ignore_case b, ignore_case c] \<in> set sequences \<longleftrightarrow> known_run a b c"
proof -
  have d: "(49 \<le> (of_char (ignore_case a) :: nat) \<and> (of_char (ignore_case c) :: nat) \<le> 57)
        \<longleftrightarrow> (49 \<le> (of_char a :: nat) \<and> (of_char c :: nat) \<le> 57)"
    by (auto simp: ignore_case_def is_upper_def)
  show ?thesis
    using sequences_run[of "ignore_case a" "ignore_case b" "ignore_case c"]
          run_sequences[of "ignore_case a" "ignore_case b" "ignore_case c"] d
    unfolding known_run_def by blast
qed

lemma hasSequentialChars_window: "hasSequentialChars pw = window3 known_run pw"
  by (induction pw rule: hasSequentialChars.induct) (simp_all add: sequences_known_run)

lemma score_eq: "score (calculatePasswordStrength pw) = strength_score pw"
  by (simp add: calculatePasswordStrength_def Let_def clamp04_max_min raw_score_sum
        strength_score_def hasRepeatingChars_window hasSequentialChars_window)

lemma label_eq: "label (calculatePasswordStrength pw) = label_of (strength_score pw)"
  by (simp add: calculatePasswordStrength_def Let_def clamp04_max_min raw_score_sum
        strength_score_def hasRepeatingChars_window hasSequentialChars_window label_color_clamp)

text \<open>
  Claim C9, as amended. The score is a function of the password alone: the clamp to
  [0,4] of one point for length at least 12, one more for length at least 16, one for at
  least three of the four classes (lower, upper, digit, symbol: any other character), one
  more for all four, minus one if a character other than a line terminator stands three
  times in a row, minus one if three characters in a row are, case ignored, three
  consecutive letters or three consecutive digits from 1 to 9. The label is Weak for 0
  and 1, Fair for 2, Good for 3, Strong for 4. Every password of 16 characters with all
  four classes, no character three times in a row and no ascending run of three letters
  or digits scores 4, Strong. The counterexample to the claim as stated is a password
  with the run 012, which the code does not penalise.
\<close>

theorem strength_score_label:
  "score (calculatePasswordStrength pw) = strength_score pw
   \<and> label (calculatePasswordStrength pw) = label_of (strength_score pw)
   \<and> (length pw = 16 \<and> class_count pw = 4 \<and> \<not> window3 same3 pw \<and> \<not> window3 ascending3 pw \<longrightarrow>
        score (calculatePasswordStrength pw) = 4 \<and> label (calculatePasswordStrength pw) = ''Strong'')"
proof (intro conjI impI)
  show "score (calculatePasswordStrength pw) = strength_score pw" by (rule score_eq)
  show "label (calculatePasswordStrength pw) = label_of (strength_score pw)" by (rule label_eq)
  assume a: "length pw = 16 \<and> class_count pw = 4 \<and> \<not> window3 same3 pw \<and> \<not> window3 ascending3 pw"
  have 1: "\<not> window3 same3_visible pw"
    using a window3_mono[of same3_visible same3 pw] by (auto simp: same3_visible_def same3_def)
  have 2: "\<not> window3 known_run pw"
    using a window3_mono[of known_run ascending3 pw] known_run_ascending3 by blast
  have s: "strength_score pw = 4"
    using a 1 2 by (simp add: strength_score_def points_def clamp04_def)
  show "score (calculatePasswordStrength pw) = 4" using s by (simp add: score_eq)
  show "label (calculatePasswordStrength pw) = ''Strong''" using s by (simp add: label_eq label_of_def)
qed

theorem strength_score_label_witness:
  "length ''Kq7!mW2#xR9a5vLp'' = 16 \<and> class_count ''Kq7!mW2#xR9a5vLp'' = 4
   \<and> \<not> window3 same3 ''Kq7!mW2#xR9a5vLp'' \<and> \<not> window3 ascending3 ''Kq7!mW2#xR9a5vLp''
   \<and> score (calculatePasswordStrength ''Kq7!mW2#xR9a5vLp'') = 4
   \<and> label (calculatePasswordStrength ''Kq7!mW2#xR9a5vLp'') = ''Strong''"
proof -
  have h: "length ''Kq7!mW2#xR9a5vLp'' = 16 \<and> class_count ''Kq7!mW2#xR9a5vLp'' = 4
     \<and> \<not> window3 same3 ''Kq7!mW2#xR9a5vLp'' \<and> \<not> window3 ascending3 ''Kq7!mW2#xR9a5vLp''"
    by code_simp
  from strength_score_label[of "''Kq7!mW2#xR9a5vLp''"] h show ?thesis by blast
qed


theorem strength_score_counterexample:
  "score (calculatePasswordStrength ''Kq7!mW2#xR012vLp'') = 4
   \<and> label (calculatePasswordStrength ''Kq7!mW2#xR012vLp'') = ''Strong''
   \<and> claimed_score ''Kq7!mW2#xR012vLp'' = 3"
proof -
  have r: "raw_score ''Kq7!mW2#xR012vLp'' = 4" by code_simp
  have c: "claimed_score ''Kq7!mW2#xR012vLp'' = 3" by code_simp
  show ?thesis
    by (simp add: calculatePasswordStrength_def Let_def r c label_color_def)
qed

subsection \<open>Password synthesis\<close>

lemma threshold_facts:
  assumes "0 < mx" "mx \<le> 4294967296"
  shows "mx dvd threshold mx" "0 < threshold mx" "threshold mx \<le> 4294967296"
    "4294967296 < threshold mx + mx"
proof -
  have m: "4294967296 mod mx < mx" using assms(1) by simp
  have le: "4294967296 mod mx \<le> 4294967296" by (rule mod_less_eq_dividend)
  have eq: "threshold mx = (4294967296 div mx) * mx"
    unfolding threshold_def using minus_mod_eq_div_mult[of 4294967296 mx] by simp
  show "mx dvd threshold mx" by (simp add: eq)
  have "4294967296 div mx \<ge> 1" using assms by (simp add: div_greater_zero_iff Suc_leI)
  then show "0 < threshold mx" using assms(1) by (simp add: eq)
  show "threshold mx \<le> 4294967296" by (simp add: threshold_def)
  show "4294967296 < threshold mx + mx" using m le by (simp add: threshold_def)
qed

lemma rejection_loop_spec:
  "rejection_loop mx rs = Returns (i, rest) \<longleftrightarrow>
     (\<exists>rejected a. rs = rejected @ a # rest \<and> (\<forall>r \<in> set rejected. threshold mx \<le> unat r)
        \<and> unat a < threshold mx \<and> i = unat a mod mx)"
proof (induction rs)
  case Nil
  then show ?case by simp
next
  case (Cons r rs)
  show ?case
  proof (cases "threshold mx \<le> unat r")
    case True
    have "(\<exists>rejected a. r # rs = rejected @ a # rest \<and> (\<forall>r \<in> set rejected. threshold mx \<le> unat r)
        \<and> unat a < threshold mx \<and> i = unat a mod mx)
      \<longleftrightarrow> (\<exists>rejected a. rs = rejected @ a # rest \<and> (\<forall>r \<in> set rejected. threshold mx \<le> unat r)
        \<and> unat a < threshold mx \<and> i = unat a mod mx)" (is "?L \<longleftrightarrow> ?R")
    proof
      assume ?L
      then obtain rejected a where h: "r # rs = rejected @ a # rest"
        "\<forall>r \<in> set rejected. threshold mx \<le> unat r" "unat a < threshold mx" "i = unat a mod mx"
        by blast
      from h(1) h(3) True obtain rej' where "rejected = r # rej'"
        by (cases rejected) auto
      with h show ?R by auto
    next
      assume ?R
      then obtain rejected a where h: "rs = rejected @ a # rest"
        "\<forall>r \<in> set rejected. threshold mx \<le> unat r" "unat a < threshold mx" "i = unat a mod mx"
        by blast
      show ?L
        by (rule exI[of _ "r # rejected"], rule exI[of _ a]) (use h True in auto)
    qed
    with True Cons show ?thesis by simp
  next
    case False
    have "(\<exists>rejected a. r # rs = rejected @ a # rest \<and> (\<forall>r \<in> set rejected. threshold mx \<le> unat r)
        \<and> unat a < threshold mx \<and> i = unat a mod mx)
      \<longleftrightarrow> (rs = rest \<and> i = unat r mod mx)" (is "?L \<longleftrightarrow> ?R")
    proof
      assume ?L
      then obtain rejected a where h: "r # rs = rejected @ a # rest"
        "\<forall>r \<in> set rejected. threshold mx \<le> unat r" "unat a < threshold mx" "i = unat a mod mx"
        by blast
      from h(1) h(2) False have "rejected = []" by (cases rejected) auto
      with h show ?R by auto
    next
      assume ?R
      then show ?L using False by (intro exI[of _ "[]"] exI[of _ r]) auto
    qed
    with False show ?thesis by auto
  qed
qed

lemma rejection_loop_no_throw: "rejection_loop mx rs \<noteq> Throws e"
  by (induction rs) auto

lemma rejection_loop_bound:
  assumes "rejection_loop mx rs = Returns (i, rest)" "0 < mx"
  shows "i < mx"
  using assms by (auto simp: rejection_loop_spec)

lemma good_getUnbiasedRandomIndex: "good_draw getUnbiasedRandomIndex"
  unfolding good_draw_def
proof (intro allI impI)
  fix mx :: nat and rs :: samples assume a: "0 < mx \<and> mx \<le> 4294967296"
  show "case getUnbiasedRandomIndex mx rs of Returns (i, rest) \<Rightarrow> i < mx | Throws e \<Rightarrow> False | Pending \<Rightarrow> True"
  proof (cases "rejection_loop mx rs")
    case (Returns p)
    then show ?thesis using a rejection_loop_bound[of mx rs "fst p" "snd p"]
      by (auto simp: getUnbiasedRandomIndex_def)
  next
    case (Throws e)
    then show ?thesis using rejection_loop_no_throw by blast
  next
    case Pending
    then show ?thesis using a by (simp add: getUnbiasedRandomIndex_def)
  qed
qed

lemma good_modulo_index: "good_draw modulo_index"
  by (auto simp: good_draw_def modulo_index_def split: list.splits)

lemma good_drawD:
  assumes "good_draw draw" "0 < mx" "mx \<le> 4294967296"
  shows "draw mx rs \<noteq> Throws e" "draw mx rs = Returns (i, rest) \<Longrightarrow> i < mx"
proof -
  from assms have c: "case draw mx rs of Returns (i, rest) \<Rightarrow> i < mx | Throws e \<Rightarrow> False | Pending \<Rightarrow> True"
    unfolding good_draw_def by blast
  show "draw mx rs \<noteq> Throws e" using c by (cases "draw mx rs") auto
  show "draw mx rs = Returns (i, rest) \<Longrightarrow> i < mx" using c by auto
qed

lemma and_then_Returns:
  "and_then m f = Returns y \<longleftrightarrow> (\<exists>x. m = Returns x \<and> f x = Returns y)"
  by (cases m) auto

lemma and_then_Throws:
  "and_then m f = Throws e \<longleftrightarrow> m = Throws e \<or> (\<exists>x. m = Returns x \<and> f x = Throws e)"
  by (cases m) auto

lemma fill_spec:
  assumes g: "good_draw draw" and c: "0 < length cs" "length cs \<le> 4294967296"
  shows "fill draw cs n rs \<noteq> Throws e"
    and "fill draw cs n rs = Returns (xs, rest) \<Longrightarrow> length xs = n \<and> set xs \<subseteq> Some ` set cs"
proof -
  have "fill draw cs n rs \<noteq> Throws e \<and>
        (\<forall>xs rest. fill draw cs n rs = Returns (xs, rest) \<longrightarrow> length xs = n \<and> set xs \<subseteq> Some ` set cs)"
  proof (induction n arbitrary: rs)
    case 0
    then show ?case by simp
  next
    case (Suc n)
    note d = good_drawD[OF g c]
    show ?case
    proof (intro conjI allI impI)
      show "fill draw cs (Suc n) rs \<noteq> Throws e"
        using d(1)[of rs e] Suc
        by (auto simp: and_then_Throws split: prod.splits)
    next
      fix xs rest assume a: "fill draw cs (Suc n) rs = Returns (xs, rest)"
      then obtain i rs1 ys rs2 where h: "draw (length cs) rs = Returns (i, rs1)"
        "fill draw cs n rs1 = Returns (ys, rs2)" "xs = js_get cs i # ys" "rest = rs2"
        by (auto simp: and_then_Returns split: prod.splits)
      from d(2)[OF h(1)] have "js_get cs i = Some (cs ! i)" "cs ! i \<in> set cs"
        by (simp_all add: js_get_def)
      with Suc[of rs1] h show "length xs = Suc n" and "set xs \<subseteq> Some ` set cs" by auto
    qed
  qed
  then have *: "fill draw cs n rs \<noteq> Throws e"
      "\<And>xs rest. fill draw cs n rs = Returns (xs, rest) \<Longrightarrow> length xs = n \<and> set xs \<subseteq> Some ` set cs"
    by blast+
  show "fill draw cs n rs \<noteq> Throws e" by (rule *(1))
  show "fill draw cs n rs = Returns (xs, rest) \<Longrightarrow> length xs = n \<and> set xs \<subseteq> Some ` set cs"
    by (rule *(2))
qed

lemma cover_spec:
  assumes g: "good_draw draw" and c: "0 < length cls" "length cls \<le> 4294967296"
  shows "cover draw en cls (a, pos, rs) \<noteq> Throws e"
    and "cover draw en cls (a, pos, rs) = Returns (a', pos', rs') \<Longrightarrow>
           (if en then pos' = pos + 1 \<and> (\<exists>ch \<in> set cls. a' = js_set a pos (Some ch))
            else a' = a \<and> pos' = pos)"
proof -
  note d = good_drawD[OF g c]
  show "cover draw en cls (a, pos, rs) \<noteq> Throws e"
    using d(1)[of rs e] by (auto simp: cover_def and_then_Throws split: prod.splits)
  assume r: "cover draw en cls (a, pos, rs) = Returns (a', pos', rs')"
  show "if en then pos' = pos + 1 \<and> (\<exists>ch \<in> set cls. a' = js_set a pos (Some ch))
            else a' = a \<and> pos' = pos"
  proof (cases en)
    case True
    with r obtain i rs1 where h: "draw (length cls) rs = Returns (i, rs1)"
      "a' = js_set a pos (js_get cls i)" "pos' = pos + 1"
      by (auto simp: cover_def and_then_Returns split: prod.splits)
    from d(2)[OF h(1)] have "js_get cls i = Some (cls ! i)" "cls ! i \<in> set cls"
      by (simp_all add: js_get_def)
    with h True show ?thesis by auto
  next
    case False
    with r show ?thesis by (simp add: cover_def)
  qed
qed

lemma swap_mset:
  assumes "i < length a" "j < length a"
  shows "mset (swap a i j) = mset a" "length (swap a i j) = length a"
proof -
  have s: "swap a i j = a[i := a ! j, j := a ! i]"
    using assms by (simp add: swap_def js_set_def js_at_def)
  show "mset (swap a i j) = mset a" unfolding s using mset_swap[OF assms(2) assms(1)] by simp
  show "length (swap a i j) = length a" unfolding s by simp
qed

lemma shuffle_spec:
  assumes g: "good_draw draw" and k: "k < length a" "length a \<le> 4294967295"
  shows "shuffle draw k a rs \<noteq> Throws e"
    and "shuffle draw k a rs = Returns (a', rest) \<Longrightarrow> mset a' = mset a"
proof -
  have "shuffle draw k a rs \<noteq> Throws e \<and>
        (\<forall>a' rest. shuffle draw k a rs = Returns (a', rest) \<longrightarrow> mset a' = mset a)"
    using k
  proof (induction k arbitrary: a rs)
    case 0
    then show ?case by simp
  next
    case (Suc i)
    have b: "0 < Suc i + 1" "Suc i + 1 \<le> 4294967296" using Suc.prems by auto
    note d = good_drawD[OF g b]
    show ?case
    proof (intro conjI allI impI)
      show "shuffle draw (Suc i) a rs \<noteq> Throws e"
      proof
        assume t: "shuffle draw (Suc i) a rs = Throws e"
        then obtain j rs1 where h: "draw (Suc i + 1) rs = Returns (j, rs1)"
          "shuffle draw i (swap a (Suc i) j) rs1 = Throws e"
          using d(1)[of rs e] by (auto simp: and_then_Throws split: prod.splits)
        from d(2)[OF h(1)] Suc.prems have "j < length a" by simp
        from swap_mset(2)[OF _ this, of "Suc i"] Suc.prems
        have "i < length (swap a (Suc i) j)" "length (swap a (Suc i) j) \<le> 4294967295" by auto
        from Suc.IH[OF this] h(2) show False by blast
      qed
    next
      fix a' rest assume r: "shuffle draw (Suc i) a rs = Returns (a', rest)"
      then obtain j rs1 where h: "draw (Suc i + 1) rs = Returns (j, rs1)"
          "shuffle draw i (swap a (Suc i) j) rs1 = Returns (a', rest)"
        by (auto simp: and_then_Returns split: prod.splits)
      from d(2)[OF h(1)] Suc.prems have j: "j < length a" by simp
      from swap_mset[OF _ this, of "Suc i"] Suc.prems
      have l: "i < length (swap a (Suc i) j)" "length (swap a (Suc i) j) \<le> 4294967295"
        and m: "mset (swap a (Suc i) j) = mset a" by auto
      from Suc.IH[OF l] h(2) m show "mset a' = mset a" by auto
    qed
  qed
  then have *: "shuffle draw k a rs \<noteq> Throws e"
      "\<And>a' rest. shuffle draw k a rs = Returns (a', rest) \<Longrightarrow> mset a' = mset a"
    by blast+
  show "shuffle draw k a rs \<noteq> Throws e" by (rule *(1))
  show "shuffle draw k a rs = Returns (a', rest) \<Longrightarrow> mset a' = mset a" by (rule *(2))
qed

lemma cover_step:
  assumes g: "good_draw draw" and c: "0 < length cls" "length cls \<le> 4294967296"
    and i: "covered n cs S a pos" and p: "pos < n" and sub: "en \<Longrightarrow> set cls \<subseteq> set cs"
    and r: "cover draw en cls (a, pos, rs) = Returns (a', pos', rs')"
  shows "covered n cs (if en then insert cls S else S) a' pos' \<and> pos' \<le> pos + 1"
proof (cases en)
  case False
  with cover_spec(2)[OF g c r] i show ?thesis by simp
next
  case True
  with cover_spec(2)[OF g c r] obtain ch where h: "pos' = pos + 1" "ch \<in> set cls"
    "a' = js_set a pos (Some ch)" by auto
  from i p have l: "pos < length a" by (simp add: covered_def)
  then have a': "a' = a[pos := Some ch]" using h by (simp add: js_set_def)
  have 1: "length a' = n" using i a' by (simp add: covered_def)
  have 2: "set a' \<subseteq> Some ` set cs"
  proof -
    have "set a' \<subseteq> insert (Some ch) (set a)" unfolding a' by (rule set_update_subset_insert)
    moreover have "Some ch \<in> Some ` set cs" using sub[OF True] h(2) by auto
    ultimately show ?thesis using i by (auto simp: covered_def)
  qed
  have 3: "\<forall>C \<in> insert cls S. \<exists>q < pos'. \<exists>x \<in> set C. a' ! q = Some x"
  proof
    fix C assume "C \<in> insert cls S"
    then consider "C = cls" | "C \<in> S" by auto
    then show "\<exists>q < pos'. \<exists>x \<in> set C. a' ! q = Some x"
    proof cases
      case 1
      then show ?thesis using h(1,2) l unfolding a' by (intro exI[of _ pos]) auto
    next
      case 2
      with i obtain q x where "q < pos" "x \<in> set C" "a ! q = Some x"
        by (auto simp: covered_def)
      then show ?thesis using h(1) unfolding a' by (intro exI[of _ q]) auto
    qed
  qed
  show ?thesis using True 1 2 3 h p by (simp add: covered_def)
qed

lemma join_some:
  assumes "set a \<subseteq> Some ` S"
  shows "length (join a) = length a \<and> set (join a) \<subseteq> S \<and> (\<forall>x. Some x \<in> set a \<longrightarrow> x \<in> set (join a))"
  using assms by (induction a) (auto simp: join_def)

lemma class_lengths:
  "length UPPERCASE = 26" "length LOWERCASE = 26" "length NUMBERS = 10" "length SYMBOLS = 26"
  by (simp_all add: UPPERCASE_def LOWERCASE_def NUMBERS_def SYMBOLS_def)

lemma classes_disjoint:
  "set UPPERCASE \<inter> set LOWERCASE = {}" "set UPPERCASE \<inter> set NUMBERS = {}"
  "set UPPERCASE \<inter> set SYMBOLS = {}" "set LOWERCASE \<inter> set NUMBERS = {}"
  "set LOWERCASE \<inter> set SYMBOLS = {}" "set NUMBERS \<inter> set SYMBOLS = {}"
  by (simp_all add: UPPERCASE_def LOWERCASE_def NUMBERS_def SYMBOLS_def)

lemma set_charset_of:
  "set (charset_of options) =
     (if includeUppercase options then set UPPERCASE else {})
     \<union> (if includeLowercase options then set LOWERCASE else {})
     \<union> (if includeNumbers options then set NUMBERS else {})
     \<union> (if includeSymbols options then set SYMBOLS else {})"
  by (auto simp: charset_of_def)

lemma length_charset_of: "length (charset_of options) \<le> 88"
  by (simp add: charset_of_def class_lengths)

lemma charset_nonempty: "policy_ok options \<Longrightarrow> 0 < length (charset_of options)"
  unfolding policy_ok_def charset_of_def length_append using class_lengths
  by (cases "includeUppercase options"; cases "includeLowercase options";
      cases "includeNumbers options"; cases "includeSymbols options") simp_all

lemma cover_chain:
  assumes g: "good_draw draw" and ok: "policy_ok options"
    and f: "fill draw (charset_of options) (length_opt options) rs = Returns (password, rs1)"
    and c1: "cover draw (includeUppercase options) UPPERCASE (password, 0, rs1) = Returns (a1, p1, r1)"
    and c2: "cover draw (includeLowercase options) LOWERCASE (a1, p1, r1) = Returns (a2, p2, r2)"
    and c3: "cover draw (includeNumbers options) NUMBERS (a2, p2, r2) = Returns (a3, p3, r3)"
    and c4: "cover draw (includeSymbols options) SYMBOLS (a3, p3, r3) = Returns (a4, p4, r4)"
  shows "covered (length_opt options) (charset_of options) (enabled_classes options) a4 p4"
proof -
  let ?cs = "charset_of options"
  let ?n = "length_opt options"
  have c: "0 < length ?cs" "length ?cs \<le> 4294967296"
    using charset_nonempty[OF ok] length_charset_of[of options] by auto
  have n: "8 \<le> ?n" "?n \<le> 128" using ok by (auto simp: policy_ok_def)
  from fill_spec(2)[OF g c f] have i0: "covered ?n ?cs {} password 0"
    by (simp add: covered_def)
  let ?S1 = "if includeUppercase options then insert UPPERCASE {} else {}"
  let ?S2 = "if includeLowercase options then insert LOWERCASE ?S1 else ?S1"
  let ?S3 = "if includeNumbers options then insert NUMBERS ?S2 else ?S2"
  let ?S4 = "if includeSymbols options then insert SYMBOLS ?S3 else ?S3"
  have i1: "covered ?n ?cs ?S1 a1 p1 \<and> p1 \<le> 0 + 1"
    by (rule cover_step[OF g _ _ i0 _ _ c1])
       (use n in \<open>auto simp: class_lengths set_charset_of\<close>)
  have i2: "covered ?n ?cs ?S2 a2 p2 \<and> p2 \<le> p1 + 1"
    by (rule cover_step[OF g _ _ conjunct1[OF i1] _ _ c2])
       (use n i1 in \<open>auto simp: class_lengths set_charset_of\<close>)
  have i3: "covered ?n ?cs ?S3 a3 p3 \<and> p3 \<le> p2 + 1"
    by (rule cover_step[OF g _ _ conjunct1[OF i2] _ _ c3])
       (use n i1 i2 in \<open>auto simp: class_lengths set_charset_of\<close>)
  have i4: "covered ?n ?cs ?S4 a4 p4 \<and> p4 \<le> p3 + 1"
    by (rule cover_step[OF g _ _ conjunct1[OF i3] _ _ c4])
       (use n i1 i2 i3 in \<open>auto simp: class_lengths set_charset_of\<close>)
  have "?S4 = enabled_classes options" by (auto simp: enabled_classes_def)
  with i4 show ?thesis by simp
qed

lemma generate_with_meets_policy:
  assumes g: "good_draw draw" and ok: "policy_ok options"
    and r: "generate_with draw options rs = Returns (pw, rest)"
  shows "meets_policy options pw"
proof -
  let ?cs = "charset_of options"
  let ?n = "length_opt options"
  have c: "0 < length ?cs" using charset_nonempty[OF ok] .
  have n: "8 \<le> ?n" "?n \<le> 128" using ok by (auto simp: policy_ok_def)
  from r c obtain password rs1 a1 p1 r1 a2 p2 r2 a3 p3 r3 a4 p4 r4 shuffled where
    f: "fill draw ?cs ?n rs = Returns (password, rs1)"
    and c1: "cover draw (includeUppercase options) UPPERCASE (password, 0, rs1) = Returns (a1, p1, r1)"
    and c2: "cover draw (includeLowercase options) LOWERCASE (a1, p1, r1) = Returns (a2, p2, r2)"
    and c3: "cover draw (includeNumbers options) NUMBERS (a2, p2, r2) = Returns (a3, p3, r3)"
    and c4: "cover draw (includeSymbols options) SYMBOLS (a3, p3, r3) = Returns (a4, p4, r4)"
    and s: "shuffle draw (length a4 - 1) a4 r4 = Returns (shuffled, rest)"
    and j: "pw = join shuffled"
    unfolding generate_with_def Let_def
    by (auto simp: and_then_Returns split: prod.splits)
  note i4 = cover_chain[OF g ok f c1 c2 c3 c4]
  have l4: "length a4 = ?n" and sub4: "set a4 \<subseteq> Some ` set ?cs"
    using i4 by (auto simp: covered_def)
  have has: "\<And>C. C \<in> enabled_classes options \<Longrightarrow> \<exists>ch \<in> set C. Some ch \<in> set a4"
  proof -
    fix C assume "C \<in> enabled_classes options"
    with i4 obtain p ch where "p < p4" "ch \<in> set C" "a4 ! p = Some ch" "p4 \<le> ?n"
      unfolding covered_def by blast
    then show "\<exists>ch \<in> set C. Some ch \<in> set a4" using l4 by (metis nth_mem order_less_le_trans)
  qed
  have m: "mset shuffled = mset a4"
    using shuffle_spec(2)[OF g _ _ s] l4 n by simp
  then have se: "set shuffled = set a4" and le: "length shuffled = length a4"
    by (metis set_mset_mset, metis size_mset)
  from join_some[of shuffled "set ?cs"] sub4 se
  have jl: "length pw = length shuffled" and js: "set pw \<subseteq> set ?cs"
    and jm: "\<And>x. Some x \<in> set shuffled \<Longrightarrow> x \<in> set pw"
    unfolding j by auto
  have present: "\<And>C. C \<in> enabled_classes options \<Longrightarrow> set pw \<inter> set C \<noteq> {}"
    using has jm se by blast
  have "length pw = ?n" using jl le l4 by simp
  moreover have "if includeUppercase options then set pw \<inter> set UPPERCASE \<noteq> {}
          else set pw \<inter> set UPPERCASE = {}"
    using present[of UPPERCASE] js classes_disjoint
    by (auto simp: set_charset_of enabled_classes_def split: if_splits)
  moreover have "if includeLowercase options then set pw \<inter> set LOWERCASE \<noteq> {}
          else set pw \<inter> set LOWERCASE = {}"
    using present[of LOWERCASE] js classes_disjoint
    by (auto simp: set_charset_of enabled_classes_def split: if_splits)
  moreover have "if includeNumbers options then set pw \<inter> set NUMBERS \<noteq> {}
          else set pw \<inter> set NUMBERS = {}"
    using present[of NUMBERS] js classes_disjoint
    by (auto simp: set_charset_of enabled_classes_def split: if_splits)
  moreover have "if includeSymbols options then set pw \<inter> set SYMBOLS \<noteq> {}
          else set pw \<inter> set SYMBOLS = {}"
    using present[of SYMBOLS] js classes_disjoint
    by (auto simp: set_charset_of enabled_classes_def split: if_splits)
  ultimately show ?thesis unfolding meets_policy_def by blast
qed

lemma generate_with_no_throw:
  assumes g: "good_draw draw" and ok: "policy_ok options"
  shows "generate_with draw options rs \<noteq> Throws e"
proof
  let ?cs = "charset_of options"
  let ?n = "length_opt options"
  have c: "0 < length ?cs" "length ?cs \<le> 4294967296"
    using charset_nonempty[OF ok] length_charset_of[of options] by auto
  have n: "8 \<le> ?n" "?n \<le> 128" using ok by (auto simp: policy_ok_def)
  have cl: "\<And>cls. cls \<in> {UPPERCASE, LOWERCASE, NUMBERS, SYMBOLS} \<Longrightarrow>
              0 < length cls \<and> length cls \<le> 4294967296"
    using class_lengths by auto
  assume t: "generate_with draw options rs = Throws e"
  from t c have t1: "and_then (fill draw ?cs ?n rs) (\<lambda>(password, rs1).
        and_then (cover draw (includeUppercase options) UPPERCASE (password, 0, rs1)) (\<lambda>st1.
        and_then (cover draw (includeLowercase options) LOWERCASE st1) (\<lambda>st2.
        and_then (cover draw (includeNumbers options) NUMBERS st2) (\<lambda>st3.
        and_then (cover draw (includeSymbols options) SYMBOLS st3) (\<lambda>(passwordArray, position, rs5).
        and_then (shuffle draw (length passwordArray - 1) passwordArray rs5) (\<lambda>(shuffled, rs6).
          Returns (join shuffled, rs6))))))) = Throws e"
    by (simp add: generate_with_def Let_def)
  then obtain password rs1 where f: "fill draw ?cs ?n rs = Returns (password, rs1)"
    and t2: "and_then (cover draw (includeUppercase options) UPPERCASE (password, 0, rs1)) (\<lambda>st1.
        and_then (cover draw (includeLowercase options) LOWERCASE st1) (\<lambda>st2.
        and_then (cover draw (includeNumbers options) NUMBERS st2) (\<lambda>st3.
        and_then (cover draw (includeSymbols options) SYMBOLS st3) (\<lambda>(passwordArray, position, rs5).
        and_then (shuffle draw (length passwordArray - 1) passwordArray rs5) (\<lambda>(shuffled, rs6).
          Returns (join shuffled, rs6)))))) = Throws e"
    using fill_spec(1)[OF g c, of ?n rs e] by (auto simp: and_then_Throws)
  then obtain a1 p1 r1 where c1: "cover draw (includeUppercase options) UPPERCASE (password, 0, rs1) = Returns (a1, p1, r1)"
    and t3: "and_then (cover draw (includeLowercase options) LOWERCASE (a1, p1, r1)) (\<lambda>st2.
        and_then (cover draw (includeNumbers options) NUMBERS st2) (\<lambda>st3.
        and_then (cover draw (includeSymbols options) SYMBOLS st3) (\<lambda>(passwordArray, position, rs5).
        and_then (shuffle draw (length passwordArray - 1) passwordArray rs5) (\<lambda>(shuffled, rs6).
          Returns (join shuffled, rs6))))) = Throws e"
    using cover_spec(1)[OF g, of UPPERCASE "includeUppercase options" password 0 rs1 e] cl[of UPPERCASE]
    by (auto simp: and_then_Throws)
  then obtain a2 p2 r2 where c2: "cover draw (includeLowercase options) LOWERCASE (a1, p1, r1) = Returns (a2, p2, r2)"
    and t4: "and_then (cover draw (includeNumbers options) NUMBERS (a2, p2, r2)) (\<lambda>st3.
        and_then (cover draw (includeSymbols options) SYMBOLS st3) (\<lambda>(passwordArray, position, rs5).
        and_then (shuffle draw (length passwordArray - 1) passwordArray rs5) (\<lambda>(shuffled, rs6).
          Returns (join shuffled, rs6)))) = Throws e"
    using cover_spec(1)[OF g, of LOWERCASE "includeLowercase options" a1 p1 r1 e] cl[of LOWERCASE]
    by (auto simp: and_then_Throws)
  then obtain a3 p3 r3 where c3: "cover draw (includeNumbers options) NUMBERS (a2, p2, r2) = Returns (a3, p3, r3)"
    and t5: "and_then (cover draw (includeSymbols options) SYMBOLS (a3, p3, r3)) (\<lambda>(passwordArray, position, rs5).
        and_then (shuffle draw (length passwordArray - 1) passwordArray rs5) (\<lambda>(shuffled, rs6).
          Returns (join shuffled, rs6))) = Throws e"
    using cover_spec(1)[OF g, of NUMBERS "includeNumbers options" a2 p2 r2 e] cl[of NUMBERS]
    by (auto simp: and_then_Throws)
  then obtain a4 p4 r4 where c4: "cover draw (includeSymbols options) SYMBOLS (a3, p3, r3) = Returns (a4, p4, r4)"
    and t6: "and_then (shuffle draw (length a4 - 1) a4 r4) (\<lambda>(shuffled, rs6).
          Returns (join shuffled, rs6)) = Throws e"
    using cover_spec(1)[OF g, of SYMBOLS "includeSymbols options" a3 p3 r3 e] cl[of SYMBOLS]
    by (auto simp: and_then_Throws)
  have l4: "length a4 = ?n" using cover_chain[OF g ok f c1 c2 c3 c4] by (simp add: covered_def)
  have "shuffle draw (length a4 - 1) a4 r4 \<noteq> Throws e"
    by (rule shuffle_spec(1)[OF g]) (use l4 n in auto)
  with t6 show False by (auto simp: and_then_Throws)
qed

lemma threshold_largest_multiple: "threshold n = largest_multiple n"
  unfolding threshold_def largest_multiple_def
  using minus_mod_eq_div_mult[of 4294967296 n] by simp

lemma rejection_loop_sample: "rejection_loop n rs = rejection_sample n rs"
  by (induction rs) (simp_all add: rejection_sample_def threshold_largest_multiple)

lemma getUnbiasedRandomIndex_sample:
  "getUnbiasedRandomIndex =
     (\<lambda>n rs. if n = 0 \<or> n > 4294967296 then Throws InvalidRange else rejection_sample n rs)"
  by (intro ext) (simp add: getUnbiasedRandomIndex_def rejection_loop_sample)

text \<open>The synthesis as a sequence of draws followed by the assembly.\<close>

lemma and_then_assoc:
  "and_then (and_then m f) g = and_then m (\<lambda>x. and_then (f x) g)"
  by (cases m) simp_all

lemma and_then_eqI:
  assumes "\<And>x. m = Returns x \<Longrightarrow> f x = g x"
  shows "and_then m f = and_then m g"
  using assms by (cases m) simp_all

lemma draw_all_length: "draw_all ns rs = Returns (ks, rest) \<Longrightarrow> length ks = length ns"
proof (induction ns arbitrary: rs ks)
  case Nil
  then show ?case by simp
next
  case (Cons n ns)
  then obtain i rs1 others where "rejection_sample n rs = Returns (i, rs1)"
    "draw_all ns rs1 = Returns (others, rest)" "ks = i # others"
    by (auto simp: and_then_Returns split: prod.splits)
  with Cons.IH show ?case by auto
qed

lemma draw_all_append:
  "draw_all (xs @ ys) rs =
     and_then (draw_all xs rs) (\<lambda>(is1, r1).
       and_then (draw_all ys r1) (\<lambda>(is2, r2). Returns (is1 @ is2, r2)))"
proof (induction xs arbitrary: rs)
  case Nil
  show ?case by (cases "draw_all ys rs") auto
next
  case (Cons n xs)
  show ?case
  proof (cases "rejection_sample n rs")
    case (Returns p)
    obtain i rs1 where p: "p = (i, rs1)" by (cases p)
    show ?thesis
    proof (cases "draw_all xs rs1")
      case (Returns q)
      obtain is1 r1 where q: "q = (is1, r1)" by (cases q)
      show ?thesis
        using \<open>rejection_sample n rs = Returns p\<close> Returns p q Cons.IH[of rs1]
        by (cases "draw_all ys r1") auto
    qed (use \<open>rejection_sample n rs = Returns p\<close> p Cons.IH[of rs1] in auto)
  qed simp_all
qed

lemma draw_valid:
  "0 < n \<Longrightarrow> n \<le> 4294967296 \<Longrightarrow> getUnbiasedRandomIndex n rs = rejection_sample n rs"
  by (simp add: getUnbiasedRandomIndex_sample)

lemma fill_draws:
  assumes "0 < length cs" "length cs \<le> 4294967296"
  shows "fill getUnbiasedRandomIndex cs n rs =
     and_then (draw_all (replicate n (length cs)) rs) (\<lambda>(ks, r). Returns (map (js_get cs) ks, r))"
proof (induction n arbitrary: rs)
  case 0
  show ?case by simp
next
  case (Suc n)
  show ?case
  proof (cases "rejection_sample (length cs) rs")
    case (Returns p)
    obtain i rs1 where p: "p = (i, rs1)" by (cases p)
    show ?thesis using Returns p Suc[of rs1] draw_valid[OF assms, of rs]
      by (cases "draw_all (replicate n (length cs)) rs1") auto
  qed (use draw_valid[OF assms, of rs] in simp_all)
qed

lemma cover_draws:
  assumes "0 < length cls" "length cls \<le> 4294967296"
  shows "cover getUnbiasedRandomIndex en cls (a, pos, rs) =
     and_then (draw_all (if en then [length cls] else []) rs) (\<lambda>(ks, r).
        Returns (overwrite a pos (map (js_get cls) ks), pos + length ks, r))"
proof (cases en)
  case False
  then show ?thesis by (simp add: cover_def)
next
  case True
  show ?thesis
    using True draw_valid[OF assms, of rs]
    by (cases "rejection_sample (length cls) rs") (auto simp: cover_def)
qed

lemma shuffle_bounds_Suc: "shuffle_bounds (Suc (Suc i)) = Suc (Suc i) # shuffle_bounds (Suc i)"
  by (simp add: shuffle_bounds_def)

lemma shuffle_draws:
  "k < 4294967296 \<Longrightarrow> shuffle getUnbiasedRandomIndex k a rs =
     and_then (draw_all (shuffle_bounds (k + 1)) rs) (\<lambda>(ks, r). Returns (swaps a k ks, r))"
proof (induction k arbitrary: a rs)
  case 0
  show ?case by (simp add: shuffle_bounds_def)
next
  case (Suc i)
  have v: "getUnbiasedRandomIndex (Suc i + 1) rs = rejection_sample (Suc i + 1) rs"
    by (rule draw_valid) (use Suc.prems in auto)
  have b: "shuffle_bounds (Suc i + 1) = (Suc i + 1) # shuffle_bounds (i + 1)"
    using shuffle_bounds_Suc[of i] by simp
  show ?case
  proof (cases "rejection_sample (Suc i + 1) rs")
    case (Returns p)
    obtain j rs1 where p: "p = (j, rs1)" by (cases p)
    have ih: "shuffle getUnbiasedRandomIndex i (swap a (Suc i) j) rs1 =
       and_then (draw_all (shuffle_bounds (i + 1)) rs1)
         (\<lambda>(ks, r). Returns (swaps (swap a (Suc i) j) i ks, r))"
      by (rule Suc.IH) (use Suc.prems in simp)
    show ?thesis unfolding b using Returns p v ih
      by (cases "draw_all (shuffle_bounds (i + 1)) rs1") auto
  qed (use v b in simp_all)
qed

lemma js_set_length: "length (js_set a pos v) = max (length a) (pos + 1)"
  by (simp add: js_set_def)

lemma overwrite_length:
  "length (overwrite a pos xs) = (if xs = [] then length a else max (length a) (pos + length xs))"
proof (induction xs arbitrary: a pos)
  case Nil
  show ?case by simp
next
  case (Cons x xs)
  show ?case unfolding overwrite.simps Cons.IH js_set_length by auto
qed

lemma chain4:
  "and_then m1 (\<lambda>a. and_then (f2 a) (\<lambda>b. and_then (f3 b) (\<lambda>c. and_then (f4 c) K)))
   = and_then (and_then m1 (\<lambda>a. and_then (f2 a) (\<lambda>b. and_then (f3 b) f4))) K"
  by (simp add: and_then_assoc)

lemma cover_chain_draws:
  "and_then (cover getUnbiasedRandomIndex (includeUppercase options) UPPERCASE (a, 0, r0)) (\<lambda>st1.
     and_then (cover getUnbiasedRandomIndex (includeLowercase options) LOWERCASE st1) (\<lambda>st2.
       and_then (cover getUnbiasedRandomIndex (includeNumbers options) NUMBERS st2)
         (cover getUnbiasedRandomIndex (includeSymbols options) SYMBOLS)))
   = and_then (draw_all (map length (enabled_list options)) r0) (\<lambda>(ks, r).
       Returns (overwrite a 0 (map (\<lambda>(cls, i). js_get cls i) (zip (enabled_list options) ks)),
                length ks, r))"
  by (cases "includeUppercase options"; cases "includeLowercase options";
      cases "includeNumbers options"; cases "includeSymbols options")
     (simp_all add: cover_def enabled_list_def draw_valid class_lengths and_then_assoc
        case_prod_unfold)

lemma draws_three_phases:
  "and_then (draw_all (draw_bounds options) rs) (\<lambda>(ks, rest). Returns (assemble options ks, rest))
   = and_then (draw_all (replicate (length_opt options) (length (charset_of options))) rs)
       (\<lambda>(is0, r0).
         and_then (draw_all (map length (enabled_list options)) r0) (\<lambda>(is1, r1).
           and_then (draw_all (shuffle_bounds (max (length_opt options)
                                 (length (enabled_list options)))) r1) (\<lambda>(is2, r2).
             Returns (build options is0 is1 is2, r2))))"
proof -
  let ?A = "replicate (length_opt options) (length (charset_of options))"
  let ?B = "map length (enabled_list options)"
  let ?S = "shuffle_bounds (max (length_opt options) (length (enabled_list options)))"
  have e: "draw_all (draw_bounds options) rs =
      and_then (draw_all ?A rs) (\<lambda>(is0, r0).
        and_then (and_then (draw_all ?B r0) (\<lambda>(is1, r1).
            and_then (draw_all ?S r1) (\<lambda>(is2, r2). Returns (is1 @ is2, r2))))
          (\<lambda>(others, r). Returns (is0 @ others, r)))"
    unfolding draw_bounds_def draw_all_append ..
  show ?thesis
  proof (cases "draw_all ?A rs")
    case (Returns p0)
    obtain is0 r0 where p0: "p0 = (is0, r0)" by (cases p0)
    have l0: "length is0 = length_opt options"
      using draw_all_length[of ?A rs is0 r0] Returns p0 by simp
    show ?thesis
    proof (cases "draw_all ?B r0")
      case (Returns p1)
      note B = this
      obtain is1 r1 where p1: "p1 = (is1, r1)" by (cases p1)
      have l1: "length is1 = length (enabled_list options)"
        using draw_all_length[of ?B r0 is1 r1] Returns p1 by simp
      show ?thesis
      proof (cases "draw_all ?S r1")
        case (Returns p2)
        obtain is2 r2 where p2: "p2 = (is2, r2)" by (cases p2)
        have "assemble options (is0 @ is1 @ is2) = build options is0 is1 is2"
          using l0 l1 by (simp add: assemble_def Let_def)
        then show ?thesis
          unfolding e using \<open>draw_all ?A rs = Returns p0\<close> p0 B p1 Returns p2 by simp
      qed (use \<open>draw_all ?A rs = Returns p0\<close> p0 B p1 e in simp_all)
    qed (use \<open>draw_all ?A rs = Returns p0\<close> p0 e in simp_all)
  qed (simp_all add: e)
qed

lemma length_enabled_list: "length (enabled_list options) \<le> 4"
  by (simp add: enabled_list_def)

lemma charset_enabled:
  assumes "enabled_list options \<noteq> []"
  shows "0 < length (charset_of options)"
proof -
  have "UPPERCASE \<noteq> []" "LOWERCASE \<noteq> []" "NUMBERS \<noteq> []" "SYMBOLS \<noteq> []"
    by (simp_all add: UPPERCASE_def LOWERCASE_def NUMBERS_def SYMBOLS_def)
  with assms show ?thesis
    by (auto simp: enabled_list_def charset_of_def split: if_splits)
qed

lemma generate_two_phase:
  assumes en: "enabled_list options \<noteq> []" and lt: "length_opt options < 4294967296"
  shows "generateSecurePassword options rs =
     and_then (draw_all (draw_bounds options) rs) (\<lambda>(ks, rest). Returns (assemble options ks, rest))"
proof -
  let ?n = "length_opt options"
  let ?cs = "charset_of options"
  let ?A = "replicate ?n (length ?cs)"
  let ?B = "map length (enabled_list options)"
  let ?m = "max ?n (length (enabled_list options))"
  let ?S = "shuffle_bounds ?m"
  let ?d = getUnbiasedRandomIndex
  have c: "0 < length ?cs" "length ?cs \<le> 4294967296"
    using charset_enabled[OF en] length_charset_of[of options] by auto
  have m: "0 < ?m" "?m - 1 < 4294967296"
    using en lt length_enabled_list[of options] by (auto simp: max_def)
  have g: "generateSecurePassword options rs =
      and_then (fill ?d ?cs ?n rs) (\<lambda>(password, rs1).
        and_then
          (and_then (cover ?d (includeUppercase options) UPPERCASE (password, 0, rs1)) (\<lambda>st1.
             and_then (cover ?d (includeLowercase options) LOWERCASE st1) (\<lambda>st2.
               and_then (cover ?d (includeNumbers options) NUMBERS st2)
                 (cover ?d (includeSymbols options) SYMBOLS))))
          (\<lambda>(passwordArray, position, rs5).
             and_then (shuffle ?d (length passwordArray - 1) passwordArray rs5) (\<lambda>(shuffled, rs6).
               Returns (join shuffled, rs6))))"
    unfolding generateSecurePassword_def generate_with_def Let_def chain4[symmetric]
    using c by simp
  show ?thesis
  proof (cases "draw_all ?A rs")
    case (Returns p0)
    note A = this
    obtain is0 r0 where p0: "p0 = (is0, r0)" by (cases p0)
    have l0: "length is0 = ?n" using draw_all_length[of ?A rs is0 r0] A p0 by simp
    have f: "fill ?d ?cs ?n rs = Returns (map (js_get ?cs) is0, r0)"
      unfolding fill_draws[OF c] using A p0 by simp
    show ?thesis
    proof (cases "draw_all ?B r0")
      case (Returns p1)
      note B = this
      obtain is1 r1 where p1: "p1 = (is1, r1)" by (cases p1)
      have l1: "length is1 = length (enabled_list options)"
        using draw_all_length[of ?B r0 is1 r1] B p1 by simp
      let ?pa = "overwrite (map (js_get ?cs) is0) 0
                   (map (\<lambda>(cls, i). js_get cls i) (zip (enabled_list options) is1))"
      have lp: "length ?pa = ?m"
        unfolding overwrite_length using l0 l1 by auto
      have s: "shuffle ?d (length ?pa - 1) ?pa r1 =
          and_then (draw_all ?S r1) (\<lambda>(ks, r). Returns (swaps ?pa (?m - 1) ks, r))"
        unfolding lp using shuffle_draws[of "?m - 1" ?pa r1] m by simp
      show ?thesis
        unfolding g f draws_three_phases
        using A p0 B p1 s
        by (cases "draw_all ?S r1") (auto simp: cover_chain_draws build_def split: prod.splits)
    next
      case (Throws e)
      then show ?thesis
        unfolding g f draws_three_phases using A p0 by (simp add: cover_chain_draws)
    next
      case Pending
      then show ?thesis
        unfolding g f draws_three_phases using A p0 by (simp add: cover_chain_draws)
    qed
  next
    case (Throws e)
    then show ?thesis unfolding g draws_three_phases fill_draws[OF c] by simp
  next
    case Pending
    then show ?thesis unfolding g draws_three_phases fill_draws[OF c] by simp
  qed
qed

text \<open>Streams on which the synthesis returns.\<close>

lemma usable_accepted:
  assumes "0 < n" "n \<le> 128" "usable r"
  shows "unat r < largest_multiple n"
proof -
  have "4294967296 < threshold n + n" using threshold_facts(4)[of n] assms by simp
  then show ?thesis using assms unfolding threshold_largest_multiple usable_def by simp
qed

lemma rejection_sample_returns:
  assumes "0 < n" "n \<le> 128"
  shows "Suc k \<le> length (filter usable rs) \<Longrightarrow>
         \<exists>i rest. rejection_sample n rs = Returns (i, rest) \<and> k \<le> length (filter usable rest)"
proof (induction rs)
  case Nil
  then show ?case by simp
next
  case (Cons r rs)
  show ?case
  proof (cases "largest_multiple n \<le> unat r")
    case True
    then have "\<not> usable r" using usable_accepted[OF assms, of r] by auto
    with Cons.prems have "Suc k \<le> length (filter usable rs)" by simp
    from Cons.IH[OF this] True show ?thesis by (simp add: rejection_sample_def)
  next
    case False
    have "k \<le> length (filter usable rs)" using Cons.prems by (simp split: if_splits)
    with False show ?thesis by (simp add: rejection_sample_def)
  qed
qed

lemma draw_all_returns:
  "\<forall>n \<in> set ns. 0 < n \<and> n \<le> 128 \<Longrightarrow> length ns + k \<le> length (filter usable rs) \<Longrightarrow>
   \<exists>ks rest. draw_all ns rs = Returns (ks, rest) \<and> k \<le> length (filter usable rest)"
proof (induction ns arbitrary: rs)
  case Nil
  then show ?case by simp
next
  case (Cons n ns)
  then have b: "0 < n" "n \<le> 128" and tl_ok: "\<forall>n \<in> set ns. 0 < n \<and> n \<le> 128"
    and c: "Suc (length ns + k) \<le> length (filter usable rs)" by auto
  from rejection_sample_returns[OF b c] obtain i rs1 where
    r: "rejection_sample n rs = Returns (i, rs1)" "length ns + k \<le> length (filter usable rs1)"
    by blast
  from Cons.IH[OF tl_ok r(2)] obtain ks rest where
    "draw_all ns rs1 = Returns (ks, rest)" "k \<le> length (filter usable rest)" by blast
  with r(1) show ?case by simp
qed

lemma draw_bounds_range:
  assumes ok: "policy_ok options"
  shows "\<forall>n \<in> set (draw_bounds options). 0 < n \<and> n \<le> 128"
proof -
  have c: "0 < length (charset_of options)" "length (charset_of options) \<le> 88"
    using charset_nonempty[OF ok] length_charset_of[of options] by auto
  have n: "length_opt options \<le> 128" "8 \<le> length_opt options"
    using ok by (simp_all add: policy_ok_def)
  have mx: "max (length_opt options) (length (enabled_list options)) = length_opt options"
    using n length_enabled_list[of options] by simp
  have e: "\<forall>n \<in> set (map length (enabled_list options)). 0 < n \<and> n \<le> 128"
    by (auto simp: enabled_list_def class_lengths)
  have s: "\<forall>k \<in> set (shuffle_bounds (length_opt options)). 0 < k \<and> k \<le> 128"
    using n by (auto simp: shuffle_bounds_def)
  show ?thesis unfolding draw_bounds_def mx using c e s by auto
qed

lemma length_draw_bounds:
  "length (draw_bounds options) =
     length_opt options + length (enabled_list options)
     + (max (length_opt options) (length (enabled_list options)) - 1)"
  by (auto simp: draw_bounds_def shuffle_bounds_def)

lemma policy_ok_enabled:
  assumes "policy_ok options"
  shows "enabled_list options \<noteq> []" "length_opt options < 4294967296"
    "max (length_opt options) (length (enabled_list options)) = length_opt options"
  using assms length_enabled_list[of options]
  by (auto simp: policy_ok_def enabled_list_def)

lemma generate_returns:
  assumes ok: "policy_ok options"
    and l: "length_opt options + length (enabled_list options) + (length_opt options - 1)
              \<le> length (filter usable rs)"
  shows "\<exists>pw rest. generateSecurePassword options rs = Returns (pw, rest)"
proof -
  from draw_all_returns[OF draw_bounds_range[OF ok], of 0 rs] l
  obtain ks rest where "draw_all (draw_bounds options) rs = Returns (ks, rest)"
    unfolding length_draw_bounds policy_ok_enabled(3)[OF ok] by auto
  then show ?thesis unfolding generate_two_phase[OF policy_ok_enabled(1,2)[OF ok]] by simp
qed

lemma accept_usable:
  assumes "0 < mx" "mx \<le> 128" "unat r < 4294967168"
  shows "getUnbiasedRandomIndex mx (r # rs) = Returns (unat r mod mx, rs)"
proof -
  have "unat r < threshold mx"
    using usable_accepted[OF assms(1,2), of r] assms(3)
    by (simp add: usable_def threshold_largest_multiple)
  then show ?thesis using assms by (simp add: getUnbiasedRandomIndex_def)
qed

text \<open>Rewriting rules for running the synthesis on given samples.\<close>

lemma draw_reject:
  assumes "0 < mx" "mx \<le> 4294967296" "threshold mx \<le> unat r"
  shows "getUnbiasedRandomIndex mx (r # rs) = getUnbiasedRandomIndex mx rs"
  using assms by (simp add: getUnbiasedRandomIndex_def)

lemma fill_unfold:
  "0 < n \<Longrightarrow> fill draw cs n rs =
     and_then (draw (length cs) rs) (\<lambda>(i, rs1).
       and_then (fill draw cs (n - 1) rs1) (\<lambda>(rest, rs2).
         Returns (js_get cs i # rest, rs2)))"
  by (cases n) simp_all

lemma shuffle_unfold:
  "1 < k \<Longrightarrow> shuffle draw k a rs =
     and_then (draw (k + 1) rs) (\<lambda>(randomIndex, rs1).
       shuffle draw (k - 1) (swap a k randomIndex) rs1)"
  by (cases k) simp_all

lemma shuffle_one:
  "shuffle draw (Suc 0) a rs =
     and_then (draw 2 rs) (\<lambda>(randomIndex, rs1). Returns (swap a 1 randomIndex, rs1))"
  by (cases "draw (Suc (Suc 0)) rs") (auto simp: numeral_2_eq_2)

lemma update_unfold: "0 < i \<Longrightarrow> (x # xs)[i := v] = x # xs[i - 1 := v]"
  by (cases i) simp_all

lemma and_then_weak_cong: "m = m' \<Longrightarrow> and_then m f = and_then m' f"
  by simp

lemmas gen_eval = generateSecurePassword_def generateSecurePassword_modulo_def generate_with_def
  modulo_index_def threshold_def cover_def swap_def js_set_def js_get_def js_at_def Let_def
  fill_unfold shuffle_unfold shuffle_one update_unfold accept_usable draw_reject class_lengths

lemmas gen_chars = join_def charset_of_def UPPERCASE_def LOWERCASE_def NUMBERS_def SYMBOLS_def

lemma length_charset_all:
  "length (charset_of \<lparr>length_opt = n, includeUppercase = True, includeLowercase = True,
      includeNumbers = True, includeSymbols = True\<rparr>) = 88"
  by (simp add: charset_of_def class_lengths)

lemma length_charset_lower_digits:
  "length (charset_of \<lparr>length_opt = n, includeUppercase = False, includeLowercase = True,
      includeNumbers = True, includeSymbols = False\<rparr>) = 36"
  by (simp add: charset_of_def class_lengths)

lemma generate_no_class:
  assumes "enabled_list options = []"
  shows "generateSecurePassword options rs = Throws NoCharacterType"
proof -
  from assms have "charset_of options = []"
    by (auto simp: enabled_list_def charset_of_def split: if_splits)
  then show ?thesis by (simp add: generateSecurePassword_def generate_with_def)
qed

lemma replicate_unfold: "0 < n \<Longrightarrow> replicate n x = x # replicate (n - 1) x"
  by (cases n) simp_all

text \<open>
  Claim C5. Every draw of the synthesis is made by rejection sampling. For every policy
  with a class enabled (and a length an array can have, below \<open>2^32\<close>), and on every
  stream of samples, \<open>generateSecurePassword\<close> is its draws followed by the assembly:
  the indices are those of \<open>draw_all\<close> on \<open>draw_bounds\<close> (the draws per position,
  the coverage draws per enabled class and the shuffle draws, in this order, each one a
  \<open>rejection_sample\<close>), the password is what \<open>assemble\<close> builds from these indices
  and from nothing else, and the samples left are those the draws leave. With no class
  enabled it throws before any draw. \<open>getUnbiasedRandomIndex\<close> is
  \<open>rejection_sample\<close> for every bound \<open>n\<close> from 1 to \<open>2^32\<close>; there the largest
  multiple of \<open>n\<close> that fits in \<open>2^32\<close> is less than \<open>n\<close> below \<open>2^32\<close>, every
  sample a draw passes over is at or above it, and the index is the first sample below it,
  modulo \<open>n\<close>, so below \<open>n\<close>.
\<close>

theorem draws_by_rejection:
  "(enabled_list options \<noteq> [] \<and> length_opt options < 4294967296 \<longrightarrow>
      generateSecurePassword options rs =
        and_then (draw_all (draw_bounds options) rs)
          (\<lambda>(indices, rest). Returns (assemble options indices, rest)))
   \<and> (enabled_list options = [] \<longrightarrow>
        generateSecurePassword options rs = Throws NoCharacterType)
   \<and> getUnbiasedRandomIndex n rs =
       (if n = 0 \<or> n > 4294967296 then Throws InvalidRange else rejection_sample n rs)
   \<and> (0 < n \<and> n \<le> 4294967296 \<longrightarrow>
        n dvd largest_multiple n \<and> largest_multiple n \<le> 4294967296
        \<and> 4294967296 < largest_multiple n + n
        \<and> (\<forall>i rest. rejection_sample n rs = Returns (i, rest) \<longrightarrow>
              i < n \<and> (\<exists>rejected a. rs = rejected @ a # rest
                    \<and> (\<forall>r \<in> set rejected. largest_multiple n \<le> unat r)
                    \<and> unat a < largest_multiple n \<and> i = unat a mod n)))"
proof (intro conjI impI allI)
  assume "enabled_list options \<noteq> [] \<and> length_opt options < 4294967296"
  then show "generateSecurePassword options rs =
        and_then (draw_all (draw_bounds options) rs)
          (\<lambda>(indices, rest). Returns (assemble options indices, rest))"
    using generate_two_phase by blast
next
  assume "enabled_list options = []"
  then show "generateSecurePassword options rs = Throws NoCharacterType"
    by (rule generate_no_class)
next
  show "getUnbiasedRandomIndex n rs =
     (if n = 0 \<or> n > 4294967296 then Throws InvalidRange else rejection_sample n rs)"
    by (simp add: getUnbiasedRandomIndex_sample)
next
  assume a: "0 < n \<and> n \<le> 4294967296"
  then show "n dvd largest_multiple n" by (simp add: largest_multiple_def)
  show "largest_multiple n \<le> 4294967296"
    using threshold_facts(3)[of n] a by (simp add: threshold_largest_multiple)
  show "4294967296 < largest_multiple n + n"
    using threshold_facts(4)[of n] a by (simp add: threshold_largest_multiple)
next
  fix i rest
  assume a: "0 < n \<and> n \<le> 4294967296" and r: "rejection_sample n rs = Returns (i, rest)"
  then have l: "rejection_loop n rs = Returns (i, rest)" by (simp add: rejection_loop_sample)
  show "i < n" using rejection_loop_bound[OF l] a by simp
  show "\<exists>rejected a. rs = rejected @ a # rest
                    \<and> (\<forall>r \<in> set rejected. largest_multiple n \<le> unat r)
                    \<and> unat a < largest_multiple n \<and> i = unat a mod n"
    using l unfolding rejection_loop_spec threshold_largest_multiple .
qed

text \<open>
  On the stream below a sample is discarded in each of the three stages: before the fifth
  draw per position (bound 88), before the coverage draw of the lowercase class (bound 26)
  and before the second draw of the shuffle (bound 7).
\<close>

theorem draws_by_rejection_witness:
  "enabled_list \<lparr>length_opt = 8, includeUppercase = True, includeLowercase = True,
       includeNumbers = True, includeSymbols = True\<rparr> \<noteq> []
   \<and> length_opt \<lparr>length_opt = 8, includeUppercase = True, includeLowercase = True,
       includeNumbers = True, includeSymbols = True\<rparr> < 4294967296
   \<and> draw_bounds \<lparr>length_opt = 8, includeUppercase = True, includeLowercase = True,
       includeNumbers = True, includeSymbols = True\<rparr>
       = [88, 88, 88, 88, 88, 88, 88, 88, 26, 26, 10, 26, 8, 7, 6, 5, 4, 3, 2]
   \<and> draw_all [88, 88, 88, 88, 88, 88, 88, 88, 26, 26, 10, 26, 8, 7, 6, 5, 4, 3, 2]
       [17, 42, 3, 64, 0xFFFFFFFF, 5, 71, 29, 80, 9, 0xFFFFFFFF, 33, 11, 12, 6, 0xFFFFFFFF,
        15, 2, 8, 4, 7, 1, 99]
       = Returns ([17, 42, 3, 64, 5, 71, 29, 80, 9, 7, 1, 12, 6, 1, 2, 3, 0, 1, 1], [99])
   \<and> generateSecurePassword
       \<lparr>length_opt = 8, includeUppercase = True, includeLowercase = True,
          includeNumbers = True, includeSymbols = True\<rparr>
       [17, 42, 3, 64, 0xFFFFFFFF, 5, 71, 29, 80, 9, 0xFFFFFFFF, 33, 11, 12, 6, 0xFFFFFFFF,
        15, 2, 8, 4, 7, 1, 99]
     = Returns (''F)|J-1hd'', [99])
   \<and> assemble \<lparr>length_opt = 8, includeUppercase = True, includeLowercase = True,
          includeNumbers = True, includeSymbols = True\<rparr>
        [17, 42, 3, 64, 5, 71, 29, 80, 9, 7, 1, 12, 6, 1, 2, 3, 0, 1, 1] = ''F)|J-1hd''
   \<and> enabled_list \<lparr>length_opt = 8, includeUppercase = False, includeLowercase = False,
       includeNumbers = False, includeSymbols = False\<rparr> = []
   \<and> generateSecurePassword
       \<lparr>length_opt = 8, includeUppercase = False, includeLowercase = False,
          includeNumbers = False, includeSymbols = False\<rparr> [17, 42, 3]
     = Throws NoCharacterType
   \<and> (0::nat) < 88 \<and> (88::nat) \<le> 4294967296 \<and> largest_multiple 88 = 4294967248
   \<and> getUnbiasedRandomIndex 88 [0xFFFFFFFF, 0xFFFFFFD0, 89, 7] = Returns (1, [7])"
proof -
  let ?N = "\<lparr>length_opt = 8, includeUppercase = False, includeLowercase = False,
       includeNumbers = False, includeSymbols = False\<rparr>"
  let ?O = "\<lparr>length_opt = 8, includeUppercase = True, includeLowercase = True,
       includeNumbers = True, includeSymbols = True\<rparr>"
  let ?rs = "[17, 42, 3, 64, 0xFFFFFFFF, 5, 71, 29, 80, 9, 0xFFFFFFFF, 33, 11, 12, 6, 0xFFFFFFFF,
        15, 2, 8, 4, 7, 1, 99] :: samples"
  let ?ks = "[17, 42, 3, 64, 5, 71, 29, 80, 9, 7, 1, 12, 6, 1, 2, 3, 0, 1, 1] :: nat list"
  have p: "enabled_list ?O \<noteq> [] \<and> length_opt ?O < 4294967296"
    by (simp add: enabled_list_def)
  have q: "enabled_list ?N = []" by (simp add: enabled_list_def)
  have b: "draw_bounds ?O = [88, 88, 88, 88, 88, 88, 88, 88, 26, 26, 10, 26, 8, 7, 6, 5, 4, 3, 2]"
    by (simp add: draw_bounds_def length_charset_all enabled_list_def class_lengths
          shuffle_bounds_def upt_rec_numeral replicate_unfold)
  have d: "draw_all [88, 88, 88, 88, 88, 88, 88, 88, 26, 26, 10, 26, 8, 7, 6, 5, 4, 3, 2] ?rs
             = Returns (?ks, [99])"
    by (simp add: rejection_sample_def largest_multiple_def cong: and_then_weak_cong)
  have e: "generateSecurePassword ?O ?rs = Returns (''F)|J-1hd'', [99])"
    by (simp add: gen_eval length_charset_all del: shuffle.simps(2) fill.simps(2)
         cong: and_then_weak_cong)
       (simp add: gen_chars)
  have l: "largest_multiple 88 = 4294967248" by (simp add: largest_multiple_def)
  have s: "rejection_sample 88 [0xFFFFFFFF, 0xFFFFFFD0, 89, 7] = Returns (1, [7])"
    by (simp add: rejection_sample_def l)
  note t = draws_by_rejection[of ?O ?rs 88]
  from t p have "generateSecurePassword ?O ?rs =
      and_then (draw_all (draw_bounds ?O) ?rs) (\<lambda>(indices, rest). Returns (assemble ?O indices, rest))"
    by blast
  then have a: "assemble ?O ?ks = ''F)|J-1hd''" unfolding e b d by simp
  from draws_by_rejection[of ?O "[0xFFFFFFFF, 0xFFFFFFD0, 89, 7]" 88] s
  have g: "getUnbiasedRandomIndex 88 [0xFFFFFFFF, 0xFFFFFFD0, 89, 7] = Returns (1, [7])"
    by simp
  from draws_by_rejection[of ?N "[17, 42, 3]" 88] q
  have f: "generateSecurePassword ?N [17, 42, 3] = Throws NoCharacterType" by blast
  show ?thesis using p q b d e a f l g by simp
qed

text \<open>
  Claim C6. For every policy with at least one class enabled and a length from 8 to 128,
  \<open>generateSecurePassword\<close> never throws; whenever it returns, the password has exactly
  the length asked for, holds a character of every enabled class and none of a disabled
  class; it does return, and such a password, on every stream that holds as many usable
  samples (below \<open>2^32 - 128\<close>, wherever they stand among the others) as the synthesis
  makes draws, \<open>length\<close> plus the number of enabled classes plus \<open>length - 1\<close>; and
  on any stream it returns exactly when its draws all find a sample they accept.
\<close>

theorem synthesize_meets_policy:
  "policy_ok options \<longrightarrow>
     (\<forall>e. generateSecurePassword options rs \<noteq> Throws e)
     \<and> (\<forall>pw rest. generateSecurePassword options rs = Returns (pw, rest) \<longrightarrow>
            meets_policy options pw)
     \<and> (length_opt options + length (enabled_list options) + (length_opt options - 1)
            \<le> length (filter usable rs) \<longrightarrow>
          (\<exists>pw rest. generateSecurePassword options rs = Returns (pw, rest)
                      \<and> meets_policy options pw))
     \<and> ((\<exists>pw rest. generateSecurePassword options rs = Returns (pw, rest))
          \<longleftrightarrow> (\<exists>indices rest. draw_all (draw_bounds options) rs = Returns (indices, rest)))"
proof (intro impI conjI allI)
  assume ok: "policy_ok options"
  show "\<And>e. generateSecurePassword options rs \<noteq> Throws e"
    unfolding generateSecurePassword_def
    by (rule generate_with_no_throw[OF good_getUnbiasedRandomIndex ok])
  show m: "\<And>pw rest. generateSecurePassword options rs = Returns (pw, rest) \<Longrightarrow>
            meets_policy options pw"
    unfolding generateSecurePassword_def
    by (rule generate_with_meets_policy[OF good_getUnbiasedRandomIndex ok])
  show "(\<exists>pw rest. generateSecurePassword options rs = Returns (pw, rest))
          \<longleftrightarrow> (\<exists>indices rest. draw_all (draw_bounds options) rs = Returns (indices, rest))"
    unfolding generate_two_phase[OF policy_ok_enabled(1,2)[OF ok]]
    by (auto simp: and_then_Returns)
  assume "length_opt options + length (enabled_list options) + (length_opt options - 1)
            \<le> length (filter usable rs)"
  from generate_returns[OF ok this] obtain pw rest where
    r: "generateSecurePassword options rs = Returns (pw, rest)" by blast
  with m[OF r] show "\<exists>pw rest. generateSecurePassword options rs = Returns (pw, rest)
                      \<and> meets_policy options pw" by blast
qed

text \<open>
  A policy of lowercase letters and digits on a stream of 18 samples, 17 of them usable
  (two of these above \<open>2^31\<close>) and one that every draw of bound 36 discards.
\<close>

theorem synthesize_meets_policy_witness:
  "policy_ok \<lparr>length_opt = 8, includeUppercase = False, includeLowercase = True,
       includeNumbers = True, includeSymbols = False\<rparr>
   \<and> length (filter usable
        [5, 0x80000000, 0xC0000007, 64, 0xFFFFFFFF, 5, 71, 29, 80, 9, 33, 11, 12, 6, 15, 2, 8, 4])
       = 17
   \<and> length_opt \<lparr>length_opt = 8, includeUppercase = False, includeLowercase = True,
       includeNumbers = True, includeSymbols = False\<rparr>
     + length (enabled_list \<lparr>length_opt = 8, includeUppercase = False, includeLowercase = True,
       includeNumbers = True, includeSymbols = False\<rparr>)
     + (length_opt \<lparr>length_opt = 8, includeUppercase = False, includeLowercase = True,
       includeNumbers = True, includeSymbols = False\<rparr> - 1) = 17
   \<and> generateSecurePassword
       \<lparr>length_opt = 8, includeUppercase = False, includeLowercase = True,
          includeNumbers = True, includeSymbols = False\<rparr>
       [5, 0x80000000, 0xC0000007, 64, 0xFFFFFFFF, 5, 71, 29, 80, 9, 33, 11, 12, 6, 15, 2, 8, 4]
     = Returns (''3fit3j92'', [])
   \<and> meets_policy \<lparr>length_opt = 8, includeUppercase = False, includeLowercase = True,
       includeNumbers = True, includeSymbols = False\<rparr> ''3fit3j92''"
proof -
  let ?O = "\<lparr>length_opt = 8, includeUppercase = False, includeLowercase = True,
       includeNumbers = True, includeSymbols = False\<rparr>"
  let ?rs = "[5, 0x80000000, 0xC0000007, 64, 0xFFFFFFFF, 5, 71, 29, 80, 9, 33, 11, 12, 6, 15, 2, 8, 4] :: samples"
  have p: "policy_ok ?O" by (simp add: policy_ok_def)
  have u: "length (filter usable ?rs) = 17" by (simp add: usable_def)
  have k: "length_opt ?O + length (enabled_list ?O) + (length_opt ?O - 1) = 17"
    by (simp add: enabled_list_def)
  have r: "generateSecurePassword ?O ?rs = Returns (''3fit3j92'', [])"
    by (simp add: gen_eval length_charset_lower_digits del: shuffle.simps(2) fill.simps(2)
         cong: and_then_weak_cong)
       (simp add: gen_chars)
  from synthesize_meets_policy[of ?O ?rs] p r have "meets_policy ?O ''3fit3j92''" by blast
  with p u k r show ?thesis by blast
qed

text \<open>
  The older snapshot \<^verbatim>\<open>src/unnamed/part_002\<close> on the stream of the first example: it
  reduces the three samples \<open>0xFFFFFFFF\<close>, which the newest snapshot discards, and so
  returns another password and leaves three samples more.
\<close>

lemma modulo_snapshot_keeps_rejected_sample:
  "generateSecurePassword_modulo
       \<lparr>length_opt = 8, includeUppercase = True, includeLowercase = True,
          includeNumbers = True, includeSymbols = True\<rparr>
       [17, 42, 3, 64, 0xFFFFFFFF, 5, 71, 29, 80, 9, 0xFFFFFFFF, 33, 11, 12, 6, 0xFFFFFFFF,
        15, 2, 8, 4, 7, 1, 99]
     = Returns (''jv5d)CF*'', [4, 7, 1, 99])"
  by (simp add: gen_eval length_charset_all del: shuffle.simps(2) fill.simps(2)
         cong: and_then_weak_cong)
     (simp add: gen_chars)

subsection \<open>The text encoding: sextets and octets\<close>

lemma octets_sextets:
  "\<forall>x \<in> set xs. x < 256 \<Longrightarrow> octets_of (sextets_of xs) = xs"
proof (induction xs rule: sextets_of.induct)
  case (1 a b c rest)
  then have r: "octets_of (sextets_of rest) = rest" and a: "a < 256" "b < 256" "c < 256" by auto
  have 1: "a div 4 * 4 + (a mod 4 * 16 + b div 16) div 16 = a" using a by simp
  have 2: "(a mod 4 * 16 + b div 16) mod 16 * 16 + (b mod 16 * 4 + c div 64) div 4 = b"
    using a by simp
  have 3: "(b mod 16 * 4 + c div 64) mod 4 * 64 + c mod 64 = c" using a by simp
  show ?case
    using r 1 2 3 by (cases "sextets_of rest") simp_all
next
  case (2 a b)
  then have a: "a < 256" "b < 256" by auto
  have 1: "a div 4 * 4 + (a mod 4 * 16 + b div 16) div 16 = a" using a by simp
  have 2: "(a mod 4 * 16 + b div 16) mod 16 * 16 + (b mod 16 * 4) div 4 = b" using a by simp
  show ?case using 1 2 by simp
next
  case (3 a)
  then have "a div 4 * 4 + (a mod 4 * 16) div 16 = a" by simp
  then show ?case by simp
next
  case 4
  then show ?case by simp
qed

lemma sextets_bound:
  "\<forall>x \<in> set xs. x < 256 \<Longrightarrow> \<forall>s \<in> set (sextets_of xs). s < 64"
proof (induction xs rule: sextets_of.induct)
  case (1 a b c rest)
  then have a: "a < 256" "b < 256" "c < 256" and r: "\<forall>s \<in> set (sextets_of rest). s < 64"
    by auto
  have "a div 4 < 64" "a mod 4 * 16 + b div 16 < 64" "b mod 16 * 4 + c div 64 < 64" "c mod 64 < 64"
    using a by (simp_all add: less_mult_imp_div_less)
  then show ?case using r by auto
next
  case (2 a b)
  then have a: "a < 256" "b < 256" by auto
  have "a div 4 < 64" "a mod 4 * 16 + b div 16 < 64" "b mod 16 * 4 < 64"
    using a by (simp_all add: less_mult_imp_div_less)
  then show ?case by auto
next
  case (3 a)
  then have "a div 4 < 64" "a mod 4 * 16 < 64" by (simp_all add: less_mult_imp_div_less)
  then show ?case by auto
next
  case 4
  then show ?case by simp
qed

lemma length_sextets_mod:
  "length (sextets_of xs) mod 4 = (if length xs mod 3 = 0 then 0 else length xs mod 3 + 1)"
proof (induction xs rule: sextets_of.induct)
  case (1 a b c rest)
  have m: "length rest mod 3 = 0 \<or> length rest mod 3 = 1 \<or> length rest mod 3 = 2"
    by presburger
  have "length (a # b # c # rest) mod 3 = length rest mod 3" by simp
  moreover have "length (sextets_of (a # b # c # rest)) mod 4 = length (sextets_of rest) mod 4"
    by simp
  ultimately show ?case using 1 by simp
qed simp_all

lemma padding_agrees:
  "(4 - length (sextets_of xs) mod 4) mod 4 = (3 - length xs mod 3) mod 3"
proof -
  have "length xs mod 3 = 0 \<or> length xs mod 3 = 1 \<or> length xs mod 3 = 2" by presburger
  then show ?thesis unfolding length_sextets_mod by auto
qed

lemma distinct_base64_alphabet: "distinct base64_alphabet"
  by (simp add: base64_alphabet_def)

lemma takeWhile_neq_nth:
  "distinct xs \<Longrightarrow> i < length xs \<Longrightarrow> length (takeWhile (\<lambda>x. x \<noteq> xs ! i) xs) = i"
proof (induction xs arbitrary: i)
  case Nil
  then show ?case by simp
next
  case (Cons x xs)
  show ?case
  proof (cases i)
    case 0
    then show ?thesis by simp
  next
    case (Suc j)
    with Cons.prems have "xs ! j \<in> set xs" "x \<notin> set xs" by auto
    then have "x \<noteq> xs ! j" by auto
    with Cons Suc show ?thesis by simp
  qed
qed

lemma length_base64_alphabet: "length base64_alphabet = 64"
  by (simp add: base64_alphabet_def)

lemma char_sextet_inverse: "i < 64 \<Longrightarrow> char_sextet (sextet_char i) = i"
  unfolding char_sextet_def sextet_char_def
  by (rule takeWhile_neq_nth[OF distinct_base64_alphabet]) (simp add: length_base64_alphabet)

lemma sextet_char_in: "i < 64 \<Longrightarrow> sextet_char i \<in> set base64_alphabet"
  unfolding sextet_char_def by (rule nth_mem) (simp add: length_base64_alphabet)

lemma alphabet_plain:
  assumes "c \<in> set base64_alphabet"
  shows "c \<noteq> CHR ''=''" "\<not> ascii_whitespace c" "c \<noteq> CHR ''-''" "c \<noteq> CHR ''_''"
  using assms by (auto simp: base64_alphabet_def ascii_whitespace_def)

subsection \<open>Decoding what was encoded\<close>

lemma strip_padding_body:
  assumes "\<forall>c \<in> set ys. c \<noteq> CHR ''=''" "k \<le> 2" "(length ys + k) mod 4 = 0"
  shows "strip_padding (ys @ replicate k CHR ''='') = ys"
proof -
  from assms(2) consider "k = 0" | "k = 1" | "k = 2" by linarith
  then show ?thesis
  proof cases
    case 1
    show ?thesis
    proof (cases "ys = []")
      case True
      with 1 show ?thesis by (simp add: strip_padding_def)
    next
      case False
      then have "last ys \<in> set ys" by simp
      then have "last ys \<noteq> CHR ''=''" using assms(1) by blast
      with 1 False show ?thesis by (simp add: strip_padding_def)
    qed
  next
    case 2
    have "ys = [] \<or> last ys \<noteq> CHR ''=''" using assms(1) last_in_set by blast
    with 2 assms(3) show ?thesis by (auto simp: strip_padding_def)
  next
    case 3
    then have r: "replicate k CHR ''='' = [CHR ''='', CHR ''='']" by (simp add: numeral_2_eq_2)
    have b: "butlast (ys @ [CHR ''='', CHR ''='']) = ys @ [CHR ''='']"
      by (simp add: butlast_append)
    show ?thesis unfolding r using assms(3) 3 b by (simp add: strip_padding_def)
  qed
qed

lemma padded_length: "(length (sextets_of xs) + (3 - length xs mod 3) mod 3) mod 4 = 0"
proof -
  have e: "(length (sextets_of xs) + (3 - length xs mod 3) mod 3) mod 4
         = (length (sextets_of xs) mod 4 + (3 - length xs mod 3) mod 3) mod 4"
    by (simp add: mod_add_left_eq)
  have "length xs mod 3 = 0 \<or> length xs mod 3 = 1 \<or> length xs mod 3 = 2" by presburger
  then show ?thesis unfolding e length_sextets_mod by auto
qed

lemma filter_keeps:
  "\<forall>c \<in> set ys. P c \<Longrightarrow> P e \<Longrightarrow> filter P (ys @ replicate k e) = ys @ replicate k e"
  by (induction ys) simp_all

lemma atob_btoa: "atob (btoa binary) = Inr binary"
proof -
  let ?codes = "map of_char binary :: nat list"
  let ?enc = "map sextet_char (sextets_of ?codes)"
  let ?k = "(3 - length binary mod 3) mod 3"
  have cb: "\<forall>x \<in> set ?codes. x < 256" by auto
  have sb: "\<forall>s \<in> set (sextets_of ?codes). s < 64" by (rule sextets_bound[OF cb])
  have inA: "\<forall>c \<in> set ?enc. c \<in> set base64_alphabet" using sb sextet_char_in by auto
  have noeq: "\<forall>c \<in> set ?enc. c \<noteq> CHR ''=''" using inA alphabet_plain(1) by blast
  have nows: "\<forall>c \<in> set ?enc. \<not> ascii_whitespace c" using inA alphabet_plain(2) by blast
  have eqws: "\<not> ascii_whitespace CHR ''=''" by (simp add: ascii_whitespace_def)
  have f: "filter (\<lambda>c. \<not> ascii_whitespace c) (btoa binary) = ?enc @ replicate ?k CHR ''=''"
    unfolding btoa_def by (rule filter_keeps[OF nows eqws])
  have "?k < 3" by simp
  then have k2: "?k \<le> 2" by simp
  have m: "(length ?enc + ?k) mod 4 = 0" using padded_length[of ?codes] by simp
  have s: "strip_padding (?enc @ replicate ?k CHR ''='') = ?enc"
    by (rule strip_padding_body[OF noeq k2 m])
  have l1: "length ?enc mod 4 \<noteq> 1" using length_sextets_mod[of ?codes] by (auto split: if_splits)
  have d: "map char_sextet ?enc = sextets_of ?codes"
    using sb by (simp add: map_idI char_sextet_inverse comp_def)
  have o: "map char_of (octets_of (sextets_of ?codes)) = binary"
    unfolding octets_sextets[OF cb] by (simp add: comp_def map_idI)
  show ?thesis
    unfolding atob_def Let_def f s using l1 inA d o by auto
qed

lemma url_maps:
  assumes "c \<in> set base64_alphabet"
  shows "from_url (to_url c) = c" "to_url c \<noteq> CHR ''=''"
  using alphabet_plain[OF assms] by (auto simp: to_url_def from_url_def Let_def)

lemma url_maps_eq: "to_url CHR ''='' = CHR ''=''" "from_url CHR ''='' = CHR ''=''"
  by (simp_all add: to_url_def from_url_def)

lemma base64UrlEncode_alt:
  "base64UrlEncode bytes =
     filter (\<lambda>c. c \<noteq> CHR ''='') (map to_url (btoa (map (\<lambda>b. char_of (unat b)) bytes)))"
  by (simp add: base64UrlEncode_def to_url_def[abs_def] Let_def comp_def)

lemma base64UrlDecode_alt:
  "base64UrlDecode s =
     (case atob (map from_url (s @ replicate ((4 - length s mod 4) mod 4) CHR ''='')) of
        Inl e \<Rightarrow> Inl e
      | Inr binary \<Rightarrow> Inr (map (\<lambda>c. of_nat (of_char c)) binary))"
  by (simp add: base64UrlDecode_def from_url_def[abs_def] Let_def comp_def)

lemma filter_drops_pad:
  "\<forall>c \<in> set ys. c \<noteq> e \<Longrightarrow> filter (\<lambda>c. c \<noteq> e) (ys @ replicate k e) = ys"
  by (induction ys) simp_all

lemma byte_char_byte: "of_nat (unat b mod 256) = (b :: byte)"
proof -
  have "unat b < 2 ^ LENGTH(8)" by (rule unsigned_less)
  then have "unat b mod 256 = unat b" by simp
  then show ?thesis by simp
qed

lemma decode_encode: "base64UrlDecode (base64UrlEncode bytes) = Inr bytes"
proof -
  let ?bin = "map (\<lambda>b. char_of (unat b)) bytes"
  let ?codes = "map of_char ?bin :: nat list"
  let ?enc = "map sextet_char (sextets_of ?codes)"
  let ?k = "(3 - length ?bin mod 3) mod 3"
  have cb: "\<forall>x \<in> set ?codes. x < 256" by auto
  have sb: "\<forall>s \<in> set (sextets_of ?codes). s < 64" by (rule sextets_bound[OF cb])
  have inA: "\<forall>c \<in> set ?enc. c \<in> set base64_alphabet" using sb sextet_char_in by auto
  have b: "btoa ?bin = ?enc @ replicate ?k CHR ''=''" by (simp add: btoa_def)
  have ne: "\<forall>c \<in> set (map to_url ?enc). c \<noteq> CHR ''=''" using inA url_maps(2) by auto
  have e: "base64UrlEncode bytes = map to_url ?enc"
    unfolding base64UrlEncode_alt b using filter_drops_pad[OF ne, of ?k]
    by (simp add: url_maps_eq)
  have l: "length (map to_url ?enc) = length (sextets_of ?codes)" by simp
  have k: "(4 - length (map to_url ?enc) mod 4) mod 4 = ?k"
    unfolding l using padding_agrees[of ?codes] by simp
  have restored: "map from_url (map to_url ?enc) = ?enc"
    using inA url_maps(1) by (simp add: map_idI comp_def)
  have s: "map from_url (map to_url ?enc @ replicate ?k CHR ''='') = btoa ?bin"
    unfolding b map_append restored by (simp add: url_maps_eq)
  have bytes: "map (\<lambda>c. of_nat (of_char c)) ?bin = bytes"
    by (simp add: comp_def map_idI byte_char_byte)
  show ?thesis
    unfolding base64UrlDecode_alt e k s atob_btoa using bytes by simp
qed

subsection \<open>What decoding refuses, and the claims about the framing\<close>

lemma strip_padding_keeps:
  assumes "c \<in> set x" "c \<noteq> CHR ''=''"
  shows "c \<in> set (strip_padding x)"
proof -
  have k: "c \<in> set (butlast y)" if "c \<in> set y" "y \<noteq> []" "last y = CHR ''=''" for y
  proof -
    from that(2) have "y = butlast y @ [last y]" by simp
    then have "set y = set (butlast y) \<union> {last y}" by (metis set_append list.set(1) list.set(2))
    with that(1,3) assms(2) show ?thesis by auto
  qed
  show ?thesis
  proof (cases "x \<noteq> [] \<and> last x = CHR ''=''")
    case False
    with assms show ?thesis by (auto simp: strip_padding_def)
  next
    case True
    then have b: "c \<in> set (butlast x)" using k[OF assms(1)] by simp
    then have ne: "butlast x \<noteq> []" by auto
    show ?thesis
    proof (cases "last (butlast x) = CHR ''=''")
      case True
      with k[OF b ne] b ne assms show ?thesis by (simp add: strip_padding_def)
    next
      case False
      with b assms show ?thesis by (simp add: strip_padding_def)
    qed
  qed
qed

lemma atob_rejects:
  assumes "c \<in> set x" "\<not> ascii_whitespace c" "c \<noteq> CHR ''=''" "c \<notin> set base64_alphabet"
  shows "atob x = Inl InvalidCharacterError"
proof -
  from assms(1,2) have "c \<in> set (filter (\<lambda>c. \<not> ascii_whitespace c) x)" by simp
  from strip_padding_keeps[OF this assms(3)] assms(4) show ?thesis
    by (auto simp: atob_def Let_def)
qed

lemma base64_in_url:
  "c \<in> set base64_alphabet \<Longrightarrow> c \<in> set url_safe_alphabet \<or> c = CHR ''+'' \<or> c = CHR ''/''"
  by (auto simp: base64_alphabet_def url_safe_alphabet_def)

lemma url_marks: "CHR ''-'' \<in> set url_safe_alphabet" "CHR ''_'' \<in> set url_safe_alphabet"
  by (simp_all add: url_safe_alphabet_def)

lemma decode_rejects:
  assumes "c \<in> set s" "c \<notin> set url_safe_alphabet"
    "c \<noteq> CHR ''+''" "c \<noteq> CHR ''/''" "c \<noteq> CHR ''=''" "\<not> ascii_whitespace c"
  shows "base64UrlDecode s = Inl InvalidCharacterError"
proof -
  from assms(2) url_marks have "c \<noteq> CHR ''-''" "c \<noteq> CHR ''_''" by auto
  then have "from_url c = c" by (simp add: from_url_def)
  with assms(1) have m: "c \<in> set (map from_url (s @ replicate ((4 - length s mod 4) mod 4) CHR ''=''))"
    by force
  have n: "c \<notin> set base64_alphabet" using base64_in_url[of c] assms(2,3,4) by blast
  show ?thesis
    unfolding base64UrlDecode_alt atob_rejects[OF m assms(6) assms(5) n] by simp
qed

text \<open>
  Claim C7, as the code has it. \<open>base64UrlDecode\<close> returns bytes or throws the
  \<open>InvalidCharacterError\<close> of \<^verbatim>\<open>atob\<close>, on every text. It throws whenever the text
  holds a character that is neither of the URL-safe alphabet nor one of \<^verbatim>\<open>+\<close>,
  \<^verbatim>\<open>/\<close>, \<^verbatim>\<open>=\<close> nor ASCII whitespace. It asks for no minimum length: the encoding
  of every byte sequence, however short, decodes to that sequence.
\<close>

theorem decode_total_lenient:
  "(base64UrlDecode s = Inl InvalidCharacterError \<or> (\<exists>bytes. base64UrlDecode s = Inr bytes))
   \<and> ((\<exists>c \<in> set s. c \<notin> set url_safe_alphabet \<and> c \<noteq> CHR ''+'' \<and> c \<noteq> CHR ''/''
          \<and> c \<noteq> CHR ''='' \<and> \<not> ascii_whitespace c)
        \<longrightarrow> base64UrlDecode s = Inl InvalidCharacterError)
   \<and> base64UrlDecode (base64UrlEncode short) = Inr short"
proof (intro conjI impI)
  show "base64UrlDecode s = Inl InvalidCharacterError \<or> (\<exists>bytes. base64UrlDecode s = Inr bytes)"
    by (cases "base64UrlDecode s") (auto intro: dom_exception.exhaust)
  show "base64UrlDecode (base64UrlEncode short) = Inr short" by (rule decode_encode)
  assume "\<exists>c \<in> set s. c \<notin> set url_safe_alphabet \<and> c \<noteq> CHR ''+'' \<and> c \<noteq> CHR ''/''
          \<and> c \<noteq> CHR ''='' \<and> \<not> ascii_whitespace c"
  then show "base64UrlDecode s = Inl InvalidCharacterError" using decode_rejects by blast
qed

theorem decode_total_lenient_witness:
  "(\<exists>c \<in> set ''abc!''. c \<notin> set url_safe_alphabet \<and> c \<noteq> CHR ''+'' \<and> c \<noteq> CHR ''/''
          \<and> c \<noteq> CHR ''='' \<and> \<not> ascii_whitespace c)
   \<and> base64UrlDecode ''abc!'' = Inl InvalidCharacterError
   \<and> base64UrlEncode [0x4D] = ''TQ''
   \<and> base64UrlDecode ''TQ'' = Inr [0x4D]"
proof -
  have e: "base64UrlEncode [0x4D] = ''TQ''"
    by code_simp
  have h: "\<exists>c \<in> set ''abc!''. c \<notin> set url_safe_alphabet \<and> c \<noteq> CHR ''+'' \<and> c \<noteq> CHR ''/''
          \<and> c \<noteq> CHR ''='' \<and> \<not> ascii_whitespace c"
    by (simp add: url_safe_alphabet_def ascii_whitespace_def)
  note t = decode_total_lenient[of "''abc!''" "[0x4D]"]
  from t h have d: "base64UrlDecode ''abc!'' = Inl InvalidCharacterError" by blast
  from t have "base64UrlDecode (base64UrlEncode [0x4D]) = Inr [0x4D]" by blast
  then have r: "base64UrlDecode ''TQ'' = Inr [0x4D]" unfolding e .
  from h d e r show ?thesis by blast
qed

text \<open>
  Against claim C7 as it is stated: the empty text decodes to no byte at all, fewer than
  12, and the text \<^verbatim>\<open>+/+/\<close>, whose characters are outside the URL-safe alphabet, decodes
  to three bytes; neither call throws.
\<close>

theorem decode_accepts_counterexample:
  "base64UrlDecode '''' = Inr [] \<and> length ([] :: byte list) < 12
   \<and> base64UrlDecode ''+/+/'' = Inr [0xFB, 0xFF, 0xBF]
   \<and> CHR ''+'' \<in> set ''+/+/'' \<and> CHR ''+'' \<notin> set url_safe_alphabet"
proof -
  have a: "base64UrlDecode '''' = Inr []"
    by code_simp
  have b: "base64UrlDecode ''+/+/'' = Inr [0xFB, 0xFF, 0xBF]"
    by code_simp
  have c: "CHR ''+'' \<notin> set url_safe_alphabet" by (simp add: url_safe_alphabet_def)
  from a b c show ?thesis by simp
qed

text \<open>
  Claim C10. The envelope framing is a round trip: for every IV of 12 bytes and every
  ciphertext \<open>c\<close>, \<open>combineIvAndCiphertext\<close>, then \<open>base64UrlEncode\<close>, then
  \<open>base64UrlDecode\<close>, then \<open>separateIvAndCiphertext\<close> returns, without throwing,
  the IV as the first component and \<open>c\<close> as the second.
\<close>

theorem envelope_round_trip:
  "length iv = 12 \<longrightarrow>
     map_sum id separateIvAndCiphertext
       (base64UrlDecode (base64UrlEncode (combineIvAndCiphertext iv c))) = Inr (iv, c)"
  by (simp add: decode_encode combineIvAndCiphertext_def separateIvAndCiphertext_def)

theorem envelope_round_trip_witness:
  "length [0xA0, 0x01, 0x7F, 0x03, 0xFE, 0x05, 0x10, 0x07, 0x33, 0x09, 0xC4, 0x0B :: byte] = 12
   \<and> base64UrlEncode (combineIvAndCiphertext
          [0xA0, 0x01, 0x7F, 0x03, 0xFE, 0x05, 0x10, 0x07, 0x33, 0x09, 0xC4, 0x0B] [0xFB, 0xFF])
       = ''oAF_A_4FEAczCcQL-_8''
   \<and> map_sum id separateIvAndCiphertext (base64UrlDecode ''oAF_A_4FEAczCcQL-_8'')
     = Inr ([0xA0, 0x01, 0x7F, 0x03, 0xFE, 0x05, 0x10, 0x07, 0x33, 0x09, 0xC4, 0x0B], [0xFB, 0xFF])"
proof -
  let ?iv = "[0xA0, 0x01, 0x7F, 0x03, 0xFE, 0x05, 0x10, 0x07, 0x33, 0x09, 0xC4, 0x0B] :: byte list"
  have e: "base64UrlEncode (combineIvAndCiphertext ?iv [0xFB, 0xFF]) = ''oAF_A_4FEAczCcQL-_8''"
    by code_simp
  have l: "length ?iv = 12" by simp
  from envelope_round_trip[of ?iv "[0xFB, 0xFF]"] l
  have "map_sum id separateIvAndCiphertext
       (base64UrlDecode (base64UrlEncode (combineIvAndCiphertext ?iv [0xFB, 0xFF])))
     = Inr (?iv, [0xFB, 0xFF])" by blast
  then show ?thesis unfolding e using l by simp
qed


end
